theory Spec2Isabelle
  imports Complex_Main "HOL-Library.Multiset"
begin

section \<open>JewelCraft mesh helpers and localization table\<close>

text \<open>
  A shallow embedding of \<^verbatim>\<open>lib/mesh.py\<close> and \<^verbatim>\<open>localization.py\<close>.
  Finite Python floats are modelled as reals, Python ints as \<open>int\<close>, and every exception
  as a value of \<open>py_error\<close>. The host's mesh kernel (\<^verbatim>\<open>bmesh\<close>) is modelled as an
  arena whose elements are addressed by index.
\<close>

subsection \<open>Exceptions\<close>

datatype py_error = IndexError | ValueError | RuntimeError | ReferenceError
  | AttributeError | TypeError

subsection \<open>Stored coordinates\<close>

text \<open>
  The host keeps a vertex coordinate as three C floats (IEEE binary32), so a Python
  float written to a coordinate is rounded. A finite Python float is modelled as a real
  (every finite double is one) and a stored component as a \<open>cfloat\<close>: a finite binary32
  value or an infinity. \<open>float32\<close> is the conversion done on a write: the sign is kept
  and the magnitude is rounded to the nearest binary32 value, ties to even; a magnitude
  that rounds to \<open>2 ^ 128\<close> or more becomes infinite. \<open>f32_ulp a\<close> is the spacing of the
  binary32 values around \<open>a\<close> (24 significant bits, least exponent \<open>-126\<close>).
\<close>

datatype cfloat = Fin real | PInf | NInf

fun cneg :: "cfloat \<Rightarrow> cfloat" where
  "cneg (Fin v) = Fin (- v)"
| "cneg PInf = NInf"
| "cneg NInf = PInf"

definition round_even :: "real \<Rightarrow> int" where
  "round_even t =
     (if t - of_int \<lfloor>t\<rfloor> < 1 / 2 then \<lfloor>t\<rfloor>
      else if 1 / 2 < t - of_int \<lfloor>t\<rfloor> then \<lfloor>t\<rfloor> + 1
      else if even \<lfloor>t\<rfloor> then \<lfloor>t\<rfloor> else \<lfloor>t\<rfloor> + 1)"

definition f32_ulp :: "real \<Rightarrow> real" where
  "f32_ulp a = 2 powr (of_int (max \<lfloor>log 2 a\<rfloor> (- 126)) - 23)"

definition f32_mag :: "real \<Rightarrow> real" where
  "f32_mag a = of_int (round_even (a / f32_ulp a)) * f32_ulp a"

definition float32 :: "real \<Rightarrow> cfloat" where
  "float32 r =
     (if 2 ^ 128 \<le> f32_mag \<bar>r\<bar> then (if r < 0 then NInf else PInf)
      else Fin (if r < 0 then - f32_mag \<bar>r\<bar> else f32_mag \<bar>r\<bar>))"

subsection \<open>The editable mesh (BMesh) as an arena\<close>

text \<open>
  A \<^verbatim>\<open>BMVert\<close>, \<^verbatim>\<open>BMEdge\<close> or \<^verbatim>\<open>BMFace\<close> is a handle: the index of the
  element in the mesh. Vertex \<open>i\<close> has the coordinate \<open>verts bm ! i\<close>, edge \<open>j\<close> joins the
  two vertices \<open>edges bm ! j\<close>, and face \<open>k\<close> is its cycle of loops \<open>faces bm ! k\<close>, each
  loop holding a vertex and the edge that leaves it (as a BMesh loop does). None of the
  functions below removes an element, so handles stay valid.

  \<open>'c\<close> is the type of a stored coordinate component. A function that writes a
  coordinate takes the conversion \<open>fl\<close> from a Python float to the stored value as its
  first argument: \<open>float32\<close> for the host's mesh, the identity for exact arithmetic.
\<close>

type_synonym 'c vec = "'c \<times> 'c \<times> 'c"

record 'c bmesh =
  verts :: "'c vec list"
  edges :: "(nat \<times> nat) list"
  faces :: "(nat \<times> nat) list list"

definition co :: "'c bmesh \<Rightarrow> nat \<Rightarrow> 'c vec" where
  "co bm v = verts bm ! v"

text \<open>\<^verbatim>\<open>bm.verts.new(co)\<close>: appends a vertex, storing the three components, and
  returns its handle.\<close>

definition verts_new :: "(real \<Rightarrow> 'c) \<Rightarrow> 'c bmesh \<Rightarrow> real vec \<Rightarrow> 'c bmesh \<times> nat" where
  "verts_new fl bm c =
     (case c of (x, y, z) \<Rightarrow>
        (bm\<lparr>verts := verts bm @ [(fl x, fl y, fl z)]\<rparr>, length (verts bm)))"

text \<open>The comprehension \<^verbatim>\<open>[bm.verts.new(co) for co in (...)]\<close>, left to right.\<close>

fun new_verts :: "(real \<Rightarrow> 'c) \<Rightarrow> 'c bmesh \<Rightarrow> real vec list \<Rightarrow> 'c bmesh \<times> nat list" where
  "new_verts fl bm [] = (bm, [])"
| "new_verts fl bm (c # cs) =
     (case verts_new fl bm c of (bm1, v) \<Rightarrow>
        (case new_verts fl bm1 cs of (bm2, vs) \<Rightarrow> (bm2, v # vs)))"

subsection \<open>Primitives\<close>

text \<open>
  The arguments are finite Python floats. Negation is exact on floats; the divisions of
  \<open>make_tri\<close> are taken in the reals (Python rounds each to a double before the
  coordinate is stored).
\<close>

definition make_rect ::
  "(real \<Rightarrow> 'c) \<Rightarrow> 'c bmesh \<Rightarrow> real \<Rightarrow> real \<Rightarrow> real \<Rightarrow> 'c bmesh \<times> nat list" where
  "make_rect fl bm x y z =
     new_verts fl bm [( x,  y, z), (-x,  y, z), (-x, -y, z), ( x, -y, z)]"

definition make_tri ::
  "(real \<Rightarrow> 'c) \<Rightarrow> 'c bmesh \<Rightarrow> real \<Rightarrow> real \<Rightarrow> real \<Rightarrow> 'c bmesh \<times> nat list" where
  "make_tri fl bm x y z =
     new_verts fl bm [(x, y / 3.0, z), (-x, y / 3.0, z), (0.0, -y / 1.5, z)]"

text \<open>Component-wise sum and average of a list of coordinates.\<close>

fun vec_sum :: "real vec list \<Rightarrow> real vec" where
  "vec_sum [] = (0, 0, 0)"
| "vec_sum ((a, b, c) # ps) = (case vec_sum ps of (x, y, z) \<Rightarrow> (a + x, b + y, c + z))"

definition barycenter :: "real vec list \<Rightarrow> real vec" where
  "barycenter ps =
     (case vec_sum ps of (x, y, z) \<Rightarrow>
        (x / real (length ps), y / real (length ps), z / real (length ps)))"

subsection \<open>Loop navigation and \<open>edge_loop_expand\<close>\<close>

text \<open>
  The kernel's link queries, as far as \<open>edge_loop_expand\<close> uses them: the loops of an
  edge (\<^verbatim>\<open>e.link_loops\<close>, empty for a wire edge that bounds no face), the edge of a
  loop, and the four neighbours of a loop. Every loop has all four neighbours, so these
  are total; only the index \<^verbatim>\<open>e.link_loops[0]\<close> can raise.
\<close>

record topology =
  link_loops :: "nat \<Rightarrow> nat list"
  loop_edge :: "nat \<Rightarrow> nat"
  link_loop_next :: "nat \<Rightarrow> nat"
  link_loop_prev :: "nat \<Rightarrow> nat"
  link_loop_radial_next :: "nat \<Rightarrow> nat"
  link_loop_radial_prev :: "nat \<Rightarrow> nat"

text \<open>One iteration of the loop body, on \<open>(loop_next, loop_prev, edges)\<close>.\<close>

definition expand_step :: "topology \<Rightarrow> nat \<times> nat \<times> nat list \<Rightarrow> nat \<times> nat \<times> nat list" where
  "expand_step T st =
     (case st of (loop_next, loop_prev, es) \<Rightarrow>
        let loop_next' = link_loop_next T (link_loop_radial_next T (link_loop_next T loop_next));
            loop_prev' = link_loop_prev T (link_loop_radial_prev T (link_loop_prev T loop_prev))
        in (loop_next', loop_prev', es @ [loop_edge T loop_next', loop_edge T loop_prev']))"

text \<open>\<^verbatim>\<open>range(1, limit)\<close> is the integer interval \<open>[1..limit - 1]\<close>.\<close>

definition edge_loop_expand :: "topology \<Rightarrow> nat \<Rightarrow> int \<Rightarrow> py_error + nat list" where
  "edge_loop_expand T e limit =
     (case link_loops T e of
        [] \<Rightarrow> Inl IndexError
      | loop # _ \<Rightarrow>
          (case fold (\<lambda>_. expand_step T) [1..limit - 1] (loop, loop, [e]) of
             (_, _, es) \<Rightarrow> Inr es))"

text \<open>
  A test topology: one quad face with loops and edges \<open>0..3\<close>, loop \<open>k\<close> on edge \<open>k\<close>.
  Its edges are boundary edges, so each loop is its own radial neighbour. Every other
  edge handle is a wire edge.
\<close>

definition single_quad :: topology where
  "single_quad =
     \<lparr>link_loops = (\<lambda>e. if e < 4 then [e] else []),
      loop_edge = (\<lambda>l. l),
      link_loop_next = (\<lambda>l. (l + 1) mod 4),
      link_loop_prev = (\<lambda>l. (l + 3) mod 4),
      link_loop_radial_next = (\<lambda>l. l),
      link_loop_radial_prev = (\<lambda>l. l)\<rparr>"

subsection \<open>The localization table\<close>

text \<open>
  \<^verbatim>\<open>locale\<close> of \<^verbatim>\<open>localization.py\<close>: a dict from language code to a dict from
  message key to display string, written as association lists in source order (the
  constant is named \<open>locale_dict\<close>, since \<open>locale\<close> is reserved). Keys and codes are
  ASCII; a display string is the list of its Unicode code points, and \<open>u\<close> gives the code
  points of an ASCII literal.
\<close>

definition u :: "string \<Rightarrow> nat list" where
  "u s = map of_char s"

definition locale_EN :: "(string \<times> nat list) list" where
  "locale_EN =
     [(''prongs'', u ''Prongs''),
      (''cutter'', u ''Cutter''),
      (''make_gem'', u ''Make Gemstone''),
      (''make_dupliface'', u ''Make Dupli-face''),
      (''export_options'', u ''Export Options''),
      (''metals'', u ''Metals''),
      (''export_stats'', u ''Export Stats''),
      (''size'', u ''Size''),
      (''shank'', u ''Shank''),
      (''dim'', u ''Dimensions''),
      (''weight'', u ''Weight''),
      (''t_size'', u ''Size:''),
      (''t_width'', u ''Width:''),
      (''t_thickness'', u ''Thickness:''),
      (''t_dim'', u ''Dimensions:''),
      (''t_weight'', u ''Weight:''),
      (''t_settings'', u ''Settings:''),
      (''type'', u ''Type''),
      (''cut'', u ''Cut''),
      (''qty'', u ''Qty''),
      (''items'', u ''items''),
      (''mm'', u ''mm''),
      (''g'', u ''g''),
      (''ct'', u ''ct''),
      (''g/cm'', [103, 47, 99, 109, 179, 58]),
      (''24kt'', u ''24kt Gold''),
      (''22kt'', u ''22kt Gold''),
      (''18kt_white'', u ''18kt White gold''),
      (''14kt_white'', u ''14kt White gold''),
      (''18kt_yellow'', u ''18kt Yellow gold''),
      (''14kt_yellow'', u ''14kt Yellow gold''),
      (''silver'', u ''Silver''),
      (''palladium'', u ''Palladium''),
      (''platinum'', u ''Platinum''),
      (''custom'', u ''Custom density:''),
      (''custom_name'', u ''Material:''),
      (''diamond'', u ''Diamond''),
      (''zircon'', u ''Zircon''),
      (''topaz'', u ''Topaz''),
      (''emerald'', u ''Emerald''),
      (''ruby'', u ''Ruby''),
      (''sapphire'', u ''Sapphire''),
      (''round'', u ''Round''),
      (''oval'', u ''Oval''),
      (''pearl'', u ''Pearl''),
      (''marquise'', u ''Marquise''),
      (''baguette'', u ''Baguette''),
      (''square'', u ''Square''),
      (''error_file'', u ''First save your blend file''),
      (''error_digit'', u ''Value should be numeric'')]"

definition locale_RU :: "(string \<times> nat list) list" where
  "locale_RU =
     [(''prongs'', [1050, 1088, 1072, 1087, 1072, 1085, 1072]),
      (''cutter'', [1042, 1099, 1073, 1086, 1088, 1082, 1072]),
      (''make_gem'', [1057, 1086, 1079, 1076, 1072, 1090, 1100, 32, 1050, 1072, 1084, 1077, 1085, 1100]),
      (''make_dupliface'', [1057, 1086, 1079, 1076, 1072, 1090, 1100, 32, 68, 117, 112, 108, 105, 45, 102, 97, 99, 101]),
      (''export_options'', [1054, 1087, 1094, 1080, 1080, 32, 1069, 1082, 1089, 1087, 1086, 1088, 1090, 1072]),
      (''metals'', [1052, 1077, 1090, 1072, 1083, 1083, 1099]),
      (''export_stats'', [1069, 1082, 1089, 1087, 1086, 1088, 1090, 32, 1057, 1090, 1072, 1090, 1080, 1089, 1090, 1080, 1082, 1080]),
      (''size'', [1056, 1072, 1079, 1084, 1077, 1088]),
      (''shank'', [1064, 1080, 1085, 1082, 1072]),
      (''dim'', [1043, 1072, 1073, 1072, 1088, 1080, 1090, 1099]),
      (''weight'', [1042, 1077, 1089]),
      (''t_size'', [1056, 1072, 1079, 1084, 1077, 1088, 58]),
      (''t_width'', [1064, 1080, 1088, 1080, 1085, 1072, 58]),
      (''t_thickness'', [1058, 1086, 1083, 1097, 1080, 1085, 1072, 58]),
      (''t_dim'', [1043, 1072, 1073, 1072, 1088, 1080, 1090, 1099, 58]),
      (''t_weight'', [1042, 1077, 1089, 58]),
      (''t_settings'', [1042, 1089, 1090, 1072, 1074, 1082, 1080, 58]),
      (''type'', [1058, 1080, 1087]),
      (''cut'', [1054, 1075, 1088, 1072, 1085, 1082, 1072]),
      (''qty'', [1050, 1086, 1083, 1080, 1095, 1077, 1089, 1090, 1074, 1086]),
      (''items'', [1096, 1090, 46]),
      (''mm'', [1084, 1084]),
      (''g'', [1075]),
      (''ct'', [1082, 1072, 1088]),
      (''g/cm'', [1075, 47, 1089, 1084, 179, 58]),
      (''24kt'', [57, 57, 57, 32, 1047, 1086, 1083, 1086, 1090, 1086]),
      (''22kt'', [57, 49, 54, 32, 1047, 1086, 1083, 1086, 1090, 1086]),
      (''18kt_white'', [55, 53, 48, 32, 1041, 1077, 1083, 1086, 1077, 32, 1079, 1086, 1083, 1086, 1090, 1086]),
      (''14kt_white'', [53, 56, 53, 32, 1041, 1077, 1083, 1086, 1077, 32, 1079, 1086, 1083, 1086, 1090, 1086]),
      (''18kt_yellow'', [55, 53, 48, 32, 1046, 1105, 1083, 1090, 1086, 1077, 32, 1079, 1086, 1083, 1086, 1090, 1086]),
      (''14kt_yellow'', [53, 56, 53, 32, 1046, 1105, 1083, 1090, 1086, 1077, 32, 1079, 1086, 1083, 1086, 1090, 1086]),
      (''silver'', [67, 1077, 1088, 1077, 1073, 1088, 1086]),
      (''palladium'', [1055, 1072, 1083, 1083, 1072, 1076, 1080, 1081]),
      (''platinum'', [1055, 1083, 1072, 1090, 1080, 1085, 1072]),
      (''custom'', [1055, 1088, 1086, 1080, 1079, 1074, 1086, 1083, 1100, 1085, 1072, 1103, 32, 1087, 1083, 1086, 1090, 1085, 1086, 1089, 1090, 1100, 58]),
      (''custom_name'', [1052, 1072, 1090, 1077, 1088, 1080, 1072, 1083, 58]),
      (''diamond'', [1041, 1088, 1080, 1083, 1083, 1080, 1072, 1085, 1090]),
      (''zircon'', [1060, 1080, 1072, 1085, 1080, 1090]),
      (''topaz'', [1058, 1086, 1087, 1072, 1079]),
      (''emerald'', [1048, 1079, 1091, 1084, 1088, 1091, 1076]),
      (''ruby'', [1056, 1091, 1073, 1080, 1085]),
      (''sapphire'', [1057, 1072, 1087, 1092, 1080, 1088]),
      (''round'', [1050, 1088, 45, 53, 55]),
      (''oval'', [1054, 1074, 1072, 1083]),
      (''pearl'', [1043, 1088, 1091, 1096, 1072]),
      (''marquise'', [1052, 1072, 1088, 1082, 1080, 1079]),
      (''baguette'', [1041, 1072, 1075, 1077, 1090]),
      (''square'', [1050, 1074, 1072, 1076, 1088, 1072, 1090]),
      (''error_file'', [1057, 1085, 1072, 1095, 1072, 1083, 1072, 32, 1089, 1086, 1093, 1088, 1072, 1085, 1080, 1090, 1077, 32, 1074, 1072, 1096, 32, 98, 108, 101, 110, 100, 32, 1092, 1072, 1081, 1083]),
      (''error_digit'', [1047, 1085, 1072, 1095, 1077, 1085, 1080, 1077, 32, 1076, 1086, 1083, 1078, 1085, 1086, 32, 1073, 1099, 1090, 1100, 32, 1095, 1080, 1089, 1083, 1086, 1074, 1099, 1084])]"

definition locale_dict :: "(string \<times> (string \<times> nat list) list) list" where
  "locale_dict = [(''EN'', locale_EN), (''RU'', locale_RU)]"

text \<open>The key set of a dict written as an association list.\<close>

definition keys :: "('k \<times> 'v) list \<Rightarrow> 'k set" where
  "keys d = set (map fst d)"

subsection \<open>Scene objects and the evaluation kernel\<close>

text \<open>
  The measurement functions work on scene objects. An object has a modifier stack and a
  data-block; of a curve data-block the three shape attributes that \<open>est_curve_length\<close>
  touches are modelled, as typed fields read and written by name. The scene also counts
  what the functions acquire and release: the objects whose evaluated-mesh snapshot
  (\<^verbatim>\<open>to_mesh()\<close>) is live (the host keeps one per object until
  \<^verbatim>\<open>to_mesh_clear()\<close>), the number of \<^verbatim>\<open>BMesh\<close> structures created by
  \<^verbatim>\<open>bmesh.new()\<close> and not yet freed, and the number of temporary curve copies in
  \<^verbatim>\<open>bpy.data.curves\<close>.
\<close>

datatype pyval = PNone | PFloat real | PObject nat

record curve =
  bevel_object :: "nat option"
  bevel_depth :: real
  extrude :: real

record 'd object =
  modifiers :: "string list"
  data :: 'd

record 'd scene =
  objects :: "nat \<Rightarrow> 'd object"
  snapshots :: "nat set"
  bmeshes :: nat
  curves :: nat

text \<open>
  The host's geometry kernel is a parameter: what evaluating, merging, triangulating and
  measuring compute is not this repository's code. \<open>'g\<close> is the kernel's geometry. A
  call that can raise returns a sum; \<open>edge_lengths\<close> and \<open>spline_lengths\<close> give, element
  by element, the result of \<^verbatim>\<open>calc_length()\<close>.
\<close>

record ('d, 'g) kernel =
  new_mesh :: 'g
  to_mesh :: "'d object \<Rightarrow> py_error + 'g"
  transform :: "'d object \<Rightarrow> 'g \<Rightarrow> 'g"
  from_mesh :: "'g \<Rightarrow> 'g \<Rightarrow> py_error + 'g"
  triangulate :: "'g \<Rightarrow> py_error + 'g"
  calc_volume :: "'g \<Rightarrow> real"
  edge_lengths :: "'g \<Rightarrow> (py_error + real) list"
  spline_lengths :: "'d object \<Rightarrow> (py_error + real) list"

definition getattr :: "curve \<Rightarrow> string \<Rightarrow> py_error + pyval" where
  "getattr c k =
     (if k = ''bevel_object'' then
        Inr (case bevel_object c of None \<Rightarrow> PNone | Some b \<Rightarrow> PObject b)
      else if k = ''bevel_depth'' then Inr (PFloat (bevel_depth c))
      else if k = ''extrude'' then Inr (PFloat (extrude c))
      else Inl AttributeError)"

definition setattr :: "curve \<Rightarrow> string \<Rightarrow> pyval \<Rightarrow> py_error + curve" where
  "setattr c k v =
     (if k = ''bevel_object'' then
        (case v of
           PNone \<Rightarrow> Inr (c\<lparr>bevel_object := None\<rparr>)
         | PObject b \<Rightarrow> Inr (c\<lparr>bevel_object := Some b\<rparr>)
         | PFloat _ \<Rightarrow> Inl TypeError)
      else if k = ''bevel_depth'' then
        (case v of PFloat x \<Rightarrow> Inr (c\<lparr>bevel_depth := x\<rparr>) | _ \<Rightarrow> Inl TypeError)
      else if k = ''extrude'' then
        (case v of PFloat x \<Rightarrow> Inr (c\<lparr>extrude := x\<rparr>) | _ \<Rightarrow> Inl TypeError)
      else Inl AttributeError)"

definition set_data :: "'d scene \<Rightarrow> nat \<Rightarrow> 'd \<Rightarrow> 'd scene" where
  "set_data s i d = s\<lparr>objects := (objects s)(i := (objects s i)\<lparr>data := d\<rparr>)\<rparr>"

text \<open>\<^verbatim>\<open>settings[k] = x\<close> on a dict written as an association list.\<close>

fun dict_set :: "('k \<times> 'v) list \<Rightarrow> 'k \<Rightarrow> 'v \<Rightarrow> ('k \<times> 'v) list" where
  "dict_set [] k v = [(k, v)]"
| "dict_set ((k', v') # d) k v = (if k' = k then (k, v) # d else (k', v') # dict_set d k v)"

subsection \<open>\<open>est_volume\<close>\<close>



subsection \<open>\<open>est_curve_length\<close>\<close>

text \<open>\<^verbatim>\<open>length = 0.0; for x in ...: length += x.calc_length()\<close>.\<close>

fun sum_lengths :: "real \<Rightarrow> (py_error + real) list \<Rightarrow> py_error + real" where
  "sum_lengths len [] = Inr len"
| "sum_lengths len (Inl e # xs) = Inl e"
| "sum_lengths len (Inr x # xs) = sum_lengths (len + x) xs"

text \<open>
  The reset loop over \<^verbatim>\<open>settings.items()\<close>: read the attribute, write the reset
  value, keep the old value in the dict. The restore loop writes the kept values back.
\<close>

fun reset_curve ::
  "curve \<Rightarrow> (string \<times> pyval) list \<Rightarrow> (string \<times> pyval) list
     \<Rightarrow> curve \<times> (py_error + (string \<times> pyval) list)" where
  "reset_curve c settings [] = (c, Inr settings)"
| "reset_curve c settings ((k, v) # items) =
     (case getattr c k of
        Inl e \<Rightarrow> (c, Inl e)
      | Inr x \<Rightarrow>
          (case setattr c k v of
             Inl e \<Rightarrow> (c, Inl e)
           | Inr c' \<Rightarrow> reset_curve c' (dict_set settings k x) items))"

fun restore_curve :: "curve \<Rightarrow> (string \<times> pyval) list \<Rightarrow> curve \<times> (py_error + unit)" where
  "restore_curve c [] = (c, Inr ())"
| "restore_curve c ((k, v) # items) =
     (case setattr c k v of
        Inl e \<Rightarrow> (c, Inl e)
      | Inr c' \<Rightarrow> restore_curve c' items)"

definition settings0 :: "(string \<times> pyval) list" where
  "settings0 = [(''bevel_object'', PNone), (''bevel_depth'', PFloat 0.0), (''extrude'', PFloat 0.0)]"

definition est_curve_length ::
  "(curve, 'g) kernel \<Rightarrow> curve scene \<Rightarrow> nat \<Rightarrow> curve scene \<times> (py_error + real)" where
  "est_curve_length K s i =
     (if modifiers (objects s i) \<noteq> [] then
        (case reset_curve (data (objects s i)) settings0 settings0 of
           (c1, Inl e) \<Rightarrow> (set_data s i c1, Inl e)
         | (c1, Inr settings) \<Rightarrow>
             (let s1 = set_data s i c1 in
              case to_mesh K (objects s1 i) of
                Inl e \<Rightarrow> (s1, Inl e)
              | Inr me \<Rightarrow>
                  (let s2 = s1\<lparr>snapshots := insert i (snapshots s1)\<rparr>;
                       s3 = s2\<lparr>bmeshes := bmeshes s2 + 1\<rparr>
                   in case from_mesh K (new_mesh K) (transform K (objects s1 i) me) of
                        Inl e \<Rightarrow> (s3, Inl e)
                      | Inr bm \<Rightarrow>
                          (let s4 = s3\<lparr>snapshots := snapshots s3 - {i}\<rparr>
                           in case sum_lengths 0.0 (edge_lengths K bm) of
                                Inl e \<Rightarrow> (s4, Inl e)
                              | Inr len \<Rightarrow>
                                  (let s5 = s4\<lparr>bmeshes := bmeshes s4 - 1\<rparr>
                                   in case restore_curve (data (objects s5 i)) settings of
                                        (c2, Inl e) \<Rightarrow> (set_data s5 i c2, Inl e)
                                      | (c2, Inr _) \<Rightarrow> (set_data s5 i c2, Inr len))))))
      else
        (let s1 = s\<lparr>curves := curves s + 1\<rparr>
         in case sum_lengths 0.0 (spline_lengths K (objects s i)) of
              Inl e \<Rightarrow> (s1, Inl e)
            | Inr len \<Rightarrow> (s1\<lparr>curves := curves s1 - 1\<rparr>, Inr len)))"

text \<open>
  Test data: a scene of bevelled, extruded curves with one modifier each, and kernels
  over a geometry that is just a list of edge lengths. \<open>plain_kernel\<close> never raises;
  \<open>failing_kernel\<close> raises in \<^verbatim>\<open>triangulate\<close> and at the second edge's
  \<^verbatim>\<open>calc_length()\<close>.
\<close>

definition scene0 :: "curve scene" where
  "scene0 =
     \<lparr>objects = (\<lambda>_. \<lparr>modifiers = [''Array''],
                        data = \<lparr>bevel_object = Some 7, bevel_depth = 2, extrude = 3\<rparr>\<rparr>),
      snapshots = {}, bmeshes = 0, curves = 0\<rparr>"

definition plain_kernel :: "(curve, real list) kernel" where
  "plain_kernel =
     \<lparr>new_mesh = [],
      to_mesh = (\<lambda>ob. Inr [1 + bevel_depth (data ob), 4]),
      transform = (\<lambda>ob me. me),
      from_mesh = (\<lambda>bm me. Inr (bm @ me)),
      triangulate = (\<lambda>bm. Inr bm),
      calc_volume = (\<lambda>bm. 0),
      edge_lengths = (\<lambda>bm. map Inr bm),
      spline_lengths = (\<lambda>ob. [Inr 5])\<rparr>"

definition failing_kernel :: "(curve, real list) kernel" where
  "failing_kernel =
     plain_kernel\<lparr>triangulate := (\<lambda>bm. Inl RuntimeError),
                   edge_lengths := (\<lambda>bm. [Inr 1, Inl ReferenceError])\<rparr>"

subsection \<open>Edges, faces and duplication in the arena\<close>

text \<open>
  What the host's \<^verbatim>\<open>bmesh\<close> module does for the calls of this file, in the arena
  model. A vertex handle must be a vertex of the mesh (\<open>ReferenceError\<close> otherwise).
  \<^verbatim>\<open>bm.edges.new((a, b))\<close> raises \<open>ValueError\<close> when \<open>a\<close> and \<open>b\<close> are the same vertex
  or an edge already joins them. \<^verbatim>\<open>bm.faces.new(vs)\<close> raises \<open>ValueError\<close> for fewer
  than three vertices, for a vertex used twice and for a face that already exists on
  the same vertex cycle (in either winding); otherwise it creates the missing edges and
  the face, whose \<open>k\<close>-th loop holds \<open>vs ! k\<close> and the edge from \<open>vs ! k\<close> to the next
  vertex of the cycle. \<^verbatim>\<open>bmesh.ops.duplicate\<close> raises \<open>ValueError\<close> for an element
  given twice; for a \<open>geom\<close> of vertices it copies each of them, in mesh order, and
  returns the copies.
\<close>

definition valid_vert :: "'c bmesh \<Rightarrow> nat \<Rightarrow> bool" where
  "valid_vert bm v = (v < length (verts bm))"

definition joins :: "nat \<times> nat \<Rightarrow> nat \<Rightarrow> nat \<Rightarrow> bool" where
  "joins e a b = (e = (a, b) \<or> e = (b, a))"

text \<open>The edge that joins \<open>a\<close> and \<open>b\<close>, if there is one.\<close>

fun edge_index :: "(nat \<times> nat) list \<Rightarrow> nat \<Rightarrow> nat \<Rightarrow> nat option" where
  "edge_index [] a b = None"
| "edge_index (e # es) a b =
     (if joins e a b then Some 0 else map_option Suc (edge_index es a b))"

definition edges_new :: "'c bmesh \<Rightarrow> nat \<times> nat \<Rightarrow> py_error + 'c bmesh \<times> nat" where
  "edges_new bm vv =
     (case vv of (a, b) \<Rightarrow>
        if \<not> (valid_vert bm a \<and> valid_vert bm b) then Inl ReferenceError
        else if a = b then Inl ValueError
        else if edge_index (edges bm) a b \<noteq> None then Inl ValueError
        else Inr (bm\<lparr>edges := edges bm @ [(a, b)]\<rparr>, length (edges bm)))"

text \<open>Face creation reuses an edge that exists and creates it otherwise.\<close>

definition edge_ensure :: "'c bmesh \<Rightarrow> nat \<times> nat \<Rightarrow> 'c bmesh \<times> nat" where
  "edge_ensure bm vv =
     (case vv of (a, b) \<Rightarrow>
        (case edge_index (edges bm) a b of
           Some e \<Rightarrow> (bm, e)
         | None \<Rightarrow> (bm\<lparr>edges := edges bm @ [(a, b)]\<rparr>, length (edges bm))))"

fun ensure_edges :: "'c bmesh \<Rightarrow> (nat \<times> nat) list \<Rightarrow> 'c bmesh \<times> nat list" where
  "ensure_edges bm [] = (bm, [])"
| "ensure_edges bm (p # ps) =
     (case edge_ensure bm p of (bm1, e) \<Rightarrow>
        (case ensure_edges bm1 ps of (bm2, es) \<Rightarrow> (bm2, e # es)))"

definition face_match :: "(nat \<times> nat) list \<Rightarrow> nat list \<Rightarrow> bool" where
  "face_match f vs =
     (length f = length vs \<and>
      list_ex (\<lambda>k. rotate k (map fst f) = vs \<or> rotate k (rev (map fst f)) = vs)
        [0..<length vs])"

definition face_exists :: "'c bmesh \<Rightarrow> nat list \<Rightarrow> bool" where
  "face_exists bm vs = list_ex (\<lambda>f. face_match f vs) (faces bm)"

definition faces_new :: "'c bmesh \<Rightarrow> nat list \<Rightarrow> py_error + 'c bmesh \<times> nat" where
  "faces_new bm vs =
     (if length vs < 3 then Inl ValueError
      else if \<not> list_all (valid_vert bm) vs then Inl ReferenceError
      else if \<not> distinct vs then Inl ValueError
      else if face_exists bm vs then Inl ValueError
      else case ensure_edges bm (zip vs (rotate1 vs)) of
             (bm1, es) \<Rightarrow> Inr (bm1\<lparr>faces := faces bm1 @ [zip vs es]\<rparr>, length (faces bm1)))"

text \<open>\<^verbatim>\<open>f.edges\<close>, and Python's \<^verbatim>\<open>xs[i]\<close> for a non-negative \<open>i\<close>.\<close>

definition face_edges :: "'c bmesh \<Rightarrow> nat \<Rightarrow> nat list" where
  "face_edges bm f = map snd (faces bm ! f)"

definition getitem :: "'a list \<Rightarrow> nat \<Rightarrow> py_error + 'a" where
  "getitem xs i = (if i < length xs then Inr (xs ! i) else Inl IndexError)"

datatype elem = BMVert nat | BMEdge nat | BMFace nat

text \<open>
  \<^verbatim>\<open>bmesh.ops.duplicate(bm, geom=verts)["geom"]\<close> for a \<open>geom\<close> of vertices, which is
  what \<open>duplicate_verts\<close> passes.
\<close>

definition ops_duplicate :: "'c bmesh \<Rightarrow> nat list \<Rightarrow> py_error + 'c bmesh \<times> elem list" where
  "ops_duplicate bm geom =
     (if \<not> list_all (valid_vert bm) geom then Inl ReferenceError
      else if \<not> distinct geom then Inl ValueError
      else
        let src = filter (\<lambda>v. v \<in> set geom) [0..<length (verts bm)]
        in Inr (bm\<lparr>verts := verts bm @ map (\<lambda>v. verts bm ! v) src\<rparr>,
                map BMVert [length (verts bm)..<length (verts bm) + length src]))"

text \<open>\<^verbatim>\<open>v.co.z = z\<close>: the z component is overwritten with the stored value of \<open>z\<close>.\<close>

definition set_z :: "(real \<Rightarrow> 'c) \<Rightarrow> 'c bmesh \<Rightarrow> nat \<Rightarrow> real \<Rightarrow> 'c bmesh" where
  "set_z fl bm v z =
     bm\<lparr>verts := (verts bm)[v := (case verts bm ! v of (x, y, _) \<Rightarrow> (x, y, fl z))]\<rparr>"

subsection \<open>Ring helpers of \<^verbatim>\<open>lib/iterutils.py\<close>\<close>

text \<open>
  Modelled from the spec: \<^verbatim>\<open>pairwise_cyclic\<close>, imported from \<^verbatim>\<open>iterutils\<close>, whose
  source is not at hand. The spec has \<open>make_edges\<close> connect "consecutive vertices
  cyclically (vertex i to vertex (i+1) mod N)", in ring order.
\<close>

definition pairwise_cyclic :: "'a list \<Rightarrow> ('a \<times> 'a) list" where
  "pairwise_cyclic a = zip a (rotate1 a)"

text \<open>
  Modelled from the spec: \<^verbatim>\<open>quadwise_cyclic\<close>, imported from \<^verbatim>\<open>iterutils\<close>, whose
  source is not at hand. The spec has \<open>bridge_verts\<close> build one quad per ring step,
  "connecting corresponding consecutive pairs across the two rings", wound so that "the
  second edge in that face's edge cycle" is the rung: the quad of step \<open>i\<close> is
  \<open>a ! (i+1)\<close>, \<open>a ! i\<close>, \<open>b ! i\<close>, \<open>b ! (i+1)\<close>, indices modulo the ring length.
\<close>

definition quadwise_cyclic :: "'a list \<Rightarrow> 'a list \<Rightarrow> 'a list list" where
  "quadwise_cyclic a b =
     map (\<lambda>((a2, a1), (b1, b2)). [a2, a1, b1, b2])
       (zip (zip (rotate1 a) a) (zip b (rotate1 b)))"

subsection \<open>Ring topology builders and duplication\<close>

text \<open>
  The comprehensions run left to right and stop at the first call that raises. (The
  elements created before the exception stay in the host's mesh; the model returns only
  the exception then, since nothing below reads the mesh after one.)
\<close>

fun new_edges :: "'c bmesh \<Rightarrow> (nat \<times> nat) list \<Rightarrow> py_error + 'c bmesh \<times> nat list" where
  "new_edges bm [] = Inr (bm, [])"
| "new_edges bm (x # xs) =
     (case edges_new bm x of
        Inl err \<Rightarrow> Inl err
      | Inr (bm1, e) \<Rightarrow>
          (case new_edges bm1 xs of
             Inl err \<Rightarrow> Inl err
           | Inr (bm2, es) \<Rightarrow> Inr (bm2, e # es)))"

definition make_edges :: "'c bmesh \<Rightarrow> nat list \<Rightarrow> py_error + 'c bmesh \<times> nat list" where
  "make_edges bm vs = new_edges bm (pairwise_cyclic vs)"

fun new_faces :: "'c bmesh \<Rightarrow> nat list list \<Rightarrow> py_error + 'c bmesh \<times> nat list" where
  "new_faces bm [] = Inr (bm, [])"
| "new_faces bm (x # xs) =
     (case faces_new bm x of
        Inl err \<Rightarrow> Inl err
      | Inr (bm1, f) \<Rightarrow>
          (case new_faces bm1 xs of
             Inl err \<Rightarrow> Inl err
           | Inr (bm2, fs) \<Rightarrow> Inr (bm2, f # fs)))"

fun second_edges :: "'c bmesh \<Rightarrow> nat list \<Rightarrow> py_error + nat list" where
  "second_edges bm [] = Inr []"
| "second_edges bm (f # fs) =
     (case getitem (face_edges bm f) 1 of
        Inl err \<Rightarrow> Inl err
      | Inr e \<Rightarrow>
          (case second_edges bm fs of
             Inl err \<Rightarrow> Inl err
           | Inr es \<Rightarrow> Inr (e # es)))"

text \<open>The result dict \<^verbatim>\<open>{"faces": faces, "edges": edges}\<close> is the pair \<open>(faces, edges)\<close>.\<close>

definition bridge_verts ::
  "'c bmesh \<Rightarrow> nat list \<Rightarrow> nat list \<Rightarrow> py_error + 'c bmesh \<times> nat list \<times> nat list" where
  "bridge_verts bm v1 v2 =
     (case new_faces bm (quadwise_cyclic v1 v2) of
        Inl err \<Rightarrow> Inl err
      | Inr (bm1, fs) \<Rightarrow>
          (case second_edges bm1 fs of
             Inl err \<Rightarrow> Inl err
           | Inr es \<Rightarrow> Inr (bm1, fs, es)))"

definition duplicate_verts ::
  "(real \<Rightarrow> 'c) \<Rightarrow> 'c bmesh \<Rightarrow> nat list \<Rightarrow> real option
     \<Rightarrow> py_error + 'c bmesh \<times> nat list" where
  "duplicate_verts fl bm vs z =
     (case ops_duplicate bm vs of
        Inl err \<Rightarrow> Inl err
      | Inr (bm1, geom) \<Rightarrow>
          (let vs' = List.map_filter (\<lambda>x. case x of BMVert v \<Rightarrow> Some v | _ \<Rightarrow> None) geom
           in case z of
                None \<Rightarrow> Inr (bm1, vs')
              | Some z' \<Rightarrow> Inr (fold (\<lambda>v bm'. set_z fl bm' v z') vs' bm1, vs')))"

text \<open>Test meshes: six and four loose vertices, and the mesh with no element.\<close>

definition six_verts :: "cfloat bmesh" where
  "six_verts =
     \<lparr>verts = [(Fin 1, Fin 0, Fin 0), (Fin 0, Fin 1, Fin 0), (Fin (- 1), Fin (- 1), Fin 0),
               (Fin 1, Fin 0, Fin 2), (Fin 0, Fin 1, Fin 2), (Fin (- 1), Fin (- 1), Fin 2)],
      edges = [], faces = []\<rparr>"

definition four_verts :: "cfloat bmesh" where
  "four_verts =
     \<lparr>verts = [(Fin 1, Fin 0, Fin 0), (Fin (- 1), Fin 0, Fin 0),
               (Fin 1, Fin 0, Fin 2), (Fin (- 1), Fin 0, Fin 2)],
      edges = [], faces = []\<rparr>"

definition no_verts :: "cfloat bmesh" where
  "no_verts = \<lparr>verts = [], edges = [], faces = []\<rparr>"

text \<open>The two ends of an edge as a set, for comparing edges up to direction.\<close>

definition upair :: "nat \<times> nat \<Rightarrow> nat set" where
  "upair e = {fst e, snd e}"

text \<open>
  Notions for reasoning about face creation: the mesh \<open>bm'\<close> has the vertices of \<open>bm\<close>
  and its edges, possibly followed by new ones; the handle \<open>e\<close> is an edge of \<open>bm\<close>
  joining \<open>a\<close> and \<open>b\<close>; the loop cycle \<open>f\<close> runs through the vertices \<open>q\<close> and each of
  its loops holds an edge from its vertex to the next one.
\<close>

definition grows :: "'c bmesh \<Rightarrow> 'c bmesh \<Rightarrow> bool" where
  "grows bm bm' = (verts bm' = verts bm \<and> (\<exists>new. edges bm' = edges bm @ new))"

definition edge_joins :: "'c bmesh \<Rightarrow> nat \<Rightarrow> nat \<Rightarrow> nat \<Rightarrow> bool" where
  "edge_joins bm e a b = (e < length (edges bm) \<and> joins (edges bm ! e) a b)"

definition face_ok :: "'c bmesh \<Rightarrow> (nat \<times> nat) list \<Rightarrow> nat list \<Rightarrow> bool" where
  "face_ok bm f q =
     (map fst f = q \<and>
      (\<forall>k<length q. edge_joins bm (snd (f ! k)) (q ! k) (q ! (Suc k mod length q))))"

section \<open>Properties\<close>

subsection \<open>Rounding to binary32\<close>

lemma round_even_int: "round_even (of_int m) = m"
  by (simp add: round_even_def)

lemma round_even_small: "0 \<le> t \<Longrightarrow> t < 1 / 2 \<Longrightarrow> round_even t = 0"
proof -
  assume a: "0 \<le> t" "t < 1 / 2"
  then have "\<lfloor>t\<rfloor> = 0" by (simp add: floor_eq_iff)
  with a show ?thesis by (simp add: round_even_def)
qed

lemma f32_mag_0: "f32_mag 0 = 0"
  by (simp add: f32_mag_def round_even_def)

lemma float32_0: "float32 0 = Fin 0"
  by (simp add: float32_def f32_mag_0)

lemma float32_neg: "float32 (- r) = cneg (float32 r)"
proof (cases "r = 0")
  case True
  then show ?thesis by (simp add: float32_0)
next
  case False
  then show ?thesis
    by (cases "r < 0") (auto simp: float32_def)
qed

lemma cneg_fixed: "cneg c = c \<longleftrightarrow> c = Fin 0"
  by (cases c) auto

lemma float32_neg_neq: "float32 r \<noteq> Fin 0 \<Longrightarrow> float32 (- r) \<noteq> float32 r"
  by (simp add: float32_neg cneg_fixed)

text \<open>A normal binary32 value is stored unchanged.\<close>

lemma f32_mag_exact:
  assumes "a = of_int m * 2 powr (of_int e - 23)"
    and "2 powr of_int e \<le> a" and "a < 2 powr (of_int e + 1)" and "- 126 \<le> e"
  shows "f32_mag a = a"
proof -
  have pos: "0 < a"
    using assms(2) by (rule less_le_trans [rotated]) simp
  from assms(2,3) pos have "\<lfloor>log 2 a\<rfloor> = e"
    by (simp add: floor_log_eq_powr_iff)
  with assms(4) have ulp: "f32_ulp a = 2 powr (of_int e - 23)"
    by (simp add: f32_ulp_def max_def)
  have "a / 2 powr (of_int e - 23) = of_int m"
    by (simp add: assms(1))
  then have "a / f32_ulp a = of_int m"
    by (simp only: ulp)
  then have "f32_mag a = of_int m * f32_ulp a"
    by (simp only: f32_mag_def round_even_int)
  also have "\<dots> = of_int m * 2 powr (of_int e - 23)"
    by (simp only: ulp)
  also have "\<dots> = a"
    by (rule assms(1) [symmetric])
  finally show ?thesis .
qed

lemma float32_exact:
  assumes "\<bar>r\<bar> = of_int m * 2 powr (of_int e - 23)"
    and "2 powr of_int e \<le> \<bar>r\<bar>" and "\<bar>r\<bar> < 2 powr (of_int e + 1)" and "- 126 \<le> e" and "e \<le> 127"
  shows "float32 r = Fin r"
proof -
  have mag: "f32_mag \<bar>r\<bar> = \<bar>r\<bar>"
    using assms(1-4) by (rule f32_mag_exact)
  from assms(5) have "real_of_int e + 1 \<le> 128"
    by simp
  then have "2 powr (of_int e + 1) \<le> (2::real) powr 128"
    by (rule powr_mono) simp
  with assms(3) have "\<bar>r\<bar> < 2 powr 128"
    by simp
  then have "\<bar>r\<bar> < 2 ^ 128"
    by simp
  with mag show ?thesis
    by (auto simp: float32_def)
qed

lemma float32_1: "float32 1 = Fin 1"
  by (rule float32_exact [where e = 0 and m = "2 ^ 23"]) (simp_all add: powr_minus_divide)

lemma float32_2: "float32 2 = Fin 2"
  by (rule float32_exact [where e = 1 and m = "2 ^ 23"]) (simp_all add: powr_minus_divide)

lemma f32_mag_tiny:
  assumes "0 < a" and "a < 2 powr (- 150)"
  shows "f32_mag a = 0"
proof -
  have "a < 2 powr (- 126)"
    using assms(2) by (rule less_trans) simp
  then have "log 2 a < - 126"
    using assms(1) by (simp add: log_less_iff)
  then have "\<lfloor>log 2 a\<rfloor> < - 126"
    by (simp add: floor_less_iff)
  then have ulp: "f32_ulp a = 2 powr (- 149)"
    by (simp add: f32_ulp_def max_def)
  have "a / 2 powr (- 149) < 2 powr (- 150) / 2 powr (- 149)"
    using assms(2) by (simp add: divide_strict_right_mono)
  also have "2 powr (- 150) / 2 powr (- 149) = (1 / 2 :: real)"
    by (simp add: powr_diff [symmetric] powr_minus_divide)
  finally have "a / f32_ulp a < 1 / 2"
    by (simp add: ulp)
  moreover have "0 \<le> a / f32_ulp a"
    using assms(1) by (simp add: ulp)
  ultimately have "round_even (a / f32_ulp a) = 0"
    by (intro round_even_small)
  then show ?thesis
    by (simp add: f32_mag_def)
qed

lemma float32_tiny: "float32 (2 powr (- 160)) = Fin 0"
proof -
  have "f32_mag (2 powr (- 160)) = 0"
    by (rule f32_mag_tiny) simp_all
  then show ?thesis
    by (simp add: float32_def)
qed

lemma round_even_half: "round_even (1 / 2) = 0"
proof -
  have "\<lfloor>1 / 2 :: real\<rfloor> = 0"
    by (simp add: floor_eq_iff)
  then show ?thesis
    by (simp add: round_even_def)
qed

lemma round_even_ge_1:
  assumes "1 / 2 < t"
  shows "1 \<le> round_even t"
proof (cases "1 \<le> \<lfloor>t\<rfloor>")
  case True
  then show ?thesis
    by (simp add: round_even_def)
next
  case False
  moreover from assms have "0 \<le> \<lfloor>t\<rfloor>"
    by simp
  ultimately have "\<lfloor>t\<rfloor> = 0"
    by linarith
  with assms show ?thesis
    by (simp add: round_even_def)
qed

lemma f32_ulp_pos: "0 < f32_ulp a"
  by (simp add: f32_ulp_def)

lemma f32_mag_pos:
  assumes "2 powr (- 150) < a"
  shows "0 < f32_mag a"
proof -
  have pos: "0 < a"
    using assms by (rule less_trans [rotated]) simp
  have "1 / 2 < a / f32_ulp a"
  proof (cases "\<lfloor>log 2 a\<rfloor> < - 126")
    case True
    then have ulp: "f32_ulp a = 2 powr (- 149)"
      by (simp add: f32_ulp_def max_def)
    have "2 powr (- 150) / 2 powr (- 149) < a / 2 powr (- 149)"
      using assms by (simp add: divide_strict_right_mono)
    moreover have "2 powr (- 150) / 2 powr (- 149) = (1 / 2 :: real)"
      by (simp add: powr_diff [symmetric] powr_minus_divide)
    ultimately show ?thesis
      by (simp add: ulp)
  next
    case False
    define e where "e = \<lfloor>log 2 a\<rfloor>"
    from False have "- 126 \<le> \<lfloor>log 2 a\<rfloor>"
      by linarith
    then have "max \<lfloor>log 2 a\<rfloor> (- 126) = e"
      unfolding e_def by (rule max_absorb1)
    then have ulp: "f32_ulp a = 2 powr (of_int e - 23)"
      by (simp only: f32_ulp_def)
    have "\<lfloor>log 2 a\<rfloor> = e"
      by (simp add: e_def)
    with pos have "2 powr of_int e \<le> a"
      by (simp add: floor_log_eq_powr_iff)
    then have "2 powr of_int e / 2 powr (of_int e - 23) \<le> a / 2 powr (of_int e - 23)"
      by (simp add: divide_right_mono)
    moreover have "2 powr of_int e / 2 powr (of_int e - 23) = (2 powr 23 :: real)"
      by (simp add: powr_diff [symmetric])
    ultimately have "2 powr 23 \<le> a / f32_ulp a"
      by (simp add: ulp)
    moreover have "(1 / 2 :: real) < 2 powr 23"
      by simp
    ultimately show ?thesis
      by linarith
  qed
  then have "1 \<le> round_even (a / f32_ulp a)"
    by (rule round_even_ge_1)
  then have "0 < real_of_int (round_even (a / f32_ulp a))"
    by simp
  then show ?thesis
    unfolding f32_mag_def using f32_ulp_pos [of a] by (rule mult_pos_pos)
qed

lemma f32_mag_half_min: "f32_mag (2 powr (- 150)) = 0"
proof -
  have "\<lfloor>log 2 (2 powr (- 150) :: real)\<rfloor> = - 150"
    by simp
  then have ulp: "f32_ulp (2 powr (- 150)) = 2 powr (- 149)"
    by (simp add: f32_ulp_def)
  have "2 powr (- 150) / 2 powr (- 149) = (1 / 2 :: real)"
    by (simp add: powr_diff [symmetric] powr_minus_divide)
  then have "round_even (2 powr (- 150) / f32_ulp (2 powr (- 150))) = 0"
    by (simp only: ulp round_even_half)
  then show ?thesis
    by (simp add: f32_mag_def)
qed

lemma f32_mag_zero_iff:
  assumes "0 \<le> a"
  shows "f32_mag a = 0 \<longleftrightarrow> a \<le> 2 powr (- 150)"
proof
  assume "f32_mag a = 0"
  with f32_mag_pos [of a] show "a \<le> 2 powr (- 150)"
    by fastforce
next
  assume le: "a \<le> 2 powr (- 150)"
  consider "a = 0" | "0 < a" "a < 2 powr (- 150)" | "a = 2 powr (- 150)"
    using assms le by fastforce
  then show "f32_mag a = 0"
  proof cases
    case 1
    then show ?thesis by (simp add: f32_mag_0)
  next
    case 2
    then show ?thesis by (rule f32_mag_tiny)
  next
    case 3
    then show ?thesis by (simp only: f32_mag_half_min)
  qed
qed

lemma float32_zero_iff: "float32 r = Fin 0 \<longleftrightarrow> \<bar>r\<bar> \<le> 2 powr (- 150)"
proof -
  have "float32 r = Fin 0 \<longleftrightarrow> f32_mag \<bar>r\<bar> = 0"
    by (auto simp: float32_def)
  then show ?thesis
    by (simp add: f32_mag_zero_iff)
qed

lemma float32_5: "float32 5 = Fin 5"
  by (rule float32_exact [where e = 2 and m = "5 * 2 ^ 21"]) (simp_all add: powr_minus_divide)

lemma tiny_less_1: "2 powr (- 150) < (1::real)"
proof -
  have "2 powr (- 150) < (2::real) powr 0"
    by (rule powr_less_mono) simp_all
  then show ?thesis by simp
qed

subsection \<open>Vertex creation\<close>

lemma new_verts_result:
  "new_verts fl bm cs =
     (bm\<lparr>verts := verts bm @ map (\<lambda>(x, y, z). (fl x, fl y, fl z)) cs\<rparr>,
      [length (verts bm) ..< length (verts bm) + length cs])"
proof (induction cs arbitrary: bm)
  case Nil
  show ?case by simp
next
  case (Cons c cs)
  have "[length (verts bm) ..< length (verts bm) + length (c # cs)] =
        length (verts bm) # [Suc (length (verts bm)) ..< Suc (length (verts bm)) + length cs]"
    by (subst upt_conv_Cons) simp_all
  then show ?case
    by (cases c) (simp add: verts_new_def Cons.IH)
qed

lemma map_co_new_verts:
  assumes "new_verts fl bm cs = (bm', vs)"
  shows "map (co bm') vs = map (\<lambda>(x, y, z). (fl x, fl y, fl z)) cs"
proof -
  from assms have bm': "verts bm' = verts bm @ map (\<lambda>(x, y, z). (fl x, fl y, fl z)) cs"
    and vs: "vs = [length (verts bm) ..< length (verts bm) + length cs]"
    unfolding new_verts_result by auto
  show ?thesis
    by (rule nth_equalityI) (simp_all add: vs bm' co_def nth_append)
qed

text \<open>
  Claim C7, as stated, fails on the host's mesh, which stores 32-bit floats: for
  \<open>x = 2 powr (- 160)\<close> (not zero, and a Python float) and \<open>y = 1\<close> the stored x-coordinates
  are \<open>0\<close>, not \<open>x\<close> and \<open>-x\<close>, and the first two vertices have the same coordinates.
\<close>

theorem make_rect_underflow_counterexample:
  "(2 powr (- 160) :: real) \<noteq> 0 \<and> (1::real) \<noteq> 0
   \<and> make_rect float32 no_verts (2 powr (- 160)) 1 0
       = (no_verts\<lparr>verts := [(Fin 0, Fin 1, Fin 0), (Fin 0, Fin 1, Fin 0),
                               (Fin 0, Fin (- 1), Fin 0), (Fin 0, Fin (- 1), Fin 0)]\<rparr>,
          [0, 1, 2, 3])
   \<and> co (fst (make_rect float32 no_verts (2 powr (- 160)) 1 0)) 0
       = co (fst (make_rect float32 no_verts (2 powr (- 160)) 1 0)) 1"
  by (simp add: make_rect_def verts_new_def no_verts_def co_def
      float32_neg float32_tiny float32_1 float32_0)

text \<open>
  Claim C7, amended. For all \<open>x\<close>, \<open>y\<close>, \<open>z\<close>, \<open>make_rect\<close> returns exactly four vertices,
  newly appended to the mesh, whose stored coordinates are, in order, \<open>(x, y, z)\<close>,
  \<open>(-x, y, z)\<close>, \<open>(-x, -y, z)\<close>, \<open>(x, -y, z)\<close> rounded to 32-bit floats, and exactly
  these when \<open>x\<close>, \<open>y\<close> and \<open>z\<close> are 32-bit floats; whenever \<open>|x|\<close> and \<open>|y|\<close> exceed
  \<open>2 powr (- 150)\<close> (so that neither is stored as zero), any two cyclically consecutive
  vertices of that order have different coordinates.
\<close>

theorem make_rect_coords:
  assumes "make_rect float32 bm x y z = (bm', vs)"
  shows "length vs = 4
       \<and> vs = [length (verts bm) ..< length (verts bm) + 4]
       \<and> map (co bm') vs =
           [(float32 x, float32 y, float32 z), (float32 (- x), float32 y, float32 z),
            (float32 (- x), float32 (- y), float32 z), (float32 x, float32 (- y), float32 z)]
       \<and> (float32 x = Fin x \<and> float32 y = Fin y \<and> float32 z = Fin z \<longrightarrow>
            map (co bm') vs =
              [(Fin x, Fin y, Fin z), (Fin (- x), Fin y, Fin z),
               (Fin (- x), Fin (- y), Fin z), (Fin x, Fin (- y), Fin z)])
       \<and> (2 powr (- 150) < \<bar>x\<bar> \<and> 2 powr (- 150) < \<bar>y\<bar> \<longrightarrow>
            (\<forall>i<4. co bm' (vs ! i) \<noteq> co bm' (vs ! ((i + 1) mod 4))))"
proof -
  let ?cs = "[(x, y, z), (- x, y, z), (- x, - y, z), (x, - y, z)]"
  let ?fs = "[(float32 x, float32 y, float32 z), (float32 (- x), float32 y, float32 z),
              (float32 (- x), float32 (- y), float32 z), (float32 x, float32 (- y), float32 z)]"
  from assms have nv: "new_verts float32 bm ?cs = (bm', vs)"
    by (simp add: make_rect_def)
  have four: "length ?cs = 4"
    by simp
  from nv have "vs = snd (new_verts float32 bm ?cs)"
    by simp
  also have "\<dots> = [length (verts bm) ..< length (verts bm) + length ?cs]"
    by (simp only: new_verts_result snd_conv)
  finally have vs: "vs = [length (verts bm) ..< length (verts bm) + 4]"
    unfolding four .
  have "map (co bm') vs = map (\<lambda>(x, y, z). (float32 x, float32 y, float32 z)) ?cs"
    using nv by (rule map_co_new_verts)
  then have cs: "map (co bm') vs = ?fs"
    by simp
  have len: "length vs = 4"
    by (simp add: vs)
  have exact: "map (co bm') vs =
      [(Fin x, Fin y, Fin z), (Fin (- x), Fin y, Fin z),
       (Fin (- x), Fin (- y), Fin z), (Fin x, Fin (- y), Fin z)]"
    if "float32 x = Fin x" "float32 y = Fin y" "float32 z = Fin z"
    using that by (simp add: cs float32_neg)
  have nth: "co bm' (vs ! i) = ?fs ! i" if "i < 4" for i
  proof -
    have "map (co bm') vs ! i = co bm' (vs ! i)"
      using that len by simp
    then show ?thesis by (simp add: cs)
  qed
  have "co bm' (vs ! i) \<noteq> co bm' (vs ! ((i + 1) mod 4))"
    if big: "2 powr (- 150) < \<bar>x\<bar>" "2 powr (- 150) < \<bar>y\<bar>" and i: "i < 4" for i
  proof -
    from big have "float32 x \<noteq> Fin 0" "float32 y \<noteq> Fin 0"
      by (simp_all add: float32_zero_iff)
    then have nx: "float32 (- x) \<noteq> float32 x" and ny: "float32 (- y) \<noteq> float32 y"
      by (simp_all add: float32_neg_neq)
    from i have "i = 0 \<or> i = 1 \<or> i = 2 \<or> i = 3" by arith
    then show ?thesis
      using nx ny nx [symmetric] ny [symmetric] by (elim disjE) (simp_all add: nth)
  qed
  with len vs cs exact show ?thesis by blast
qed

theorem make_rect_coords_witness:
  "make_rect float32 no_verts 2 1 5
     = (no_verts\<lparr>verts := [(Fin 2, Fin 1, Fin 5), (Fin (- 2), Fin 1, Fin 5),
                             (Fin (- 2), Fin (- 1), Fin 5), (Fin 2, Fin (- 1), Fin 5)]\<rparr>,
        [0, 1, 2, 3])
   \<and> float32 2 = Fin 2 \<and> float32 1 = Fin 1 \<and> float32 5 = Fin 5
   \<and> 2 powr (- 150) < \<bar>2 :: real\<bar> \<and> 2 powr (- 150) < \<bar>1 :: real\<bar>
   \<and> co (no_verts\<lparr>verts := [(Fin 2, Fin 1, Fin 5), (Fin (- 2), Fin 1, Fin 5),
                               (Fin (- 2), Fin (- 1), Fin 5), (Fin 2, Fin (- 1), Fin 5)]\<rparr>)
        ([0, 1, 2, 3] ! 0)
     \<noteq> co (no_verts\<lparr>verts := [(Fin 2, Fin 1, Fin 5), (Fin (- 2), Fin 1, Fin 5),
                                 (Fin (- 2), Fin (- 1), Fin 5), (Fin 2, Fin (- 1), Fin 5)]\<rparr>)
        ([0, 1, 2, 3] ! ((0 + 1) mod 4))"
proof -
  have run: "make_rect float32 no_verts 2 1 5
     = (no_verts\<lparr>verts := [(Fin 2, Fin 1, Fin 5), (Fin (- 2), Fin 1, Fin 5),
                             (Fin (- 2), Fin (- 1), Fin 5), (Fin 2, Fin (- 1), Fin 5)]\<rparr>,
        [0, 1, 2, 3])"
    by (simp add: make_rect_def verts_new_def no_verts_def
        float32_neg float32_1 float32_2 float32_5)
  have big: "2 powr (- 150) < \<bar>2 :: real\<bar>" "2 powr (- 150) < \<bar>1 :: real\<bar>"
    using tiny_less_1 by simp_all
  show ?thesis
    using run big make_rect_coords [OF run]
    by (simp add: no_verts_def co_def float32_neg float32_1 float32_2 float32_5)
qed

text \<open>
  Claim C8. For all \<open>x\<close>, \<open>y\<close>, \<open>z\<close>, the three vertices returned by \<open>make_tri\<close> have
  coordinate sum \<open>(0, 0, 3 z)\<close> and hence barycenter \<open>(0, 0, z)\<close>, in exact arithmetic:
  the coordinates are computed in the reals and stored as they are.
\<close>

theorem make_tri_barycenter:
  "vec_sum (map (co (fst (make_tri (\<lambda>r. r) bm x y z))) (snd (make_tri (\<lambda>r. r) bm x y z)))
     = (0, 0, 3 * z)
   \<and> barycenter (map (co (fst (make_tri (\<lambda>r. r) bm x y z))) (snd (make_tri (\<lambda>r. r) bm x y z)))
     = (0, 0, z)"
proof -
  let ?cs = "[(x, y / 3.0, z), (-x, y / 3.0, z), (0.0, -y / 1.5, z)]"
  have "new_verts (\<lambda>r. r) bm ?cs
      = (fst (make_tri (\<lambda>r. r) bm x y z), snd (make_tri (\<lambda>r. r) bm x y z))"
    by (simp add: make_tri_def)
  then have "map (co (fst (make_tri (\<lambda>r. r) bm x y z))) (snd (make_tri (\<lambda>r. r) bm x y z))
      = map (\<lambda>(x, y, z). (x, y, z)) ?cs"
    by (rule map_co_new_verts)
  then show ?thesis
    by (simp add: barycenter_def)
qed

subsection \<open>Edge loop expansion\<close>

lemma fold_expand_step:
  "\<exists>a' b' more. fold (\<lambda>_. expand_step T) (xs :: int list) (a, b, es) = (a', b', es @ more)
      \<and> length more = 2 * length xs"
proof (induction xs arbitrary: a b es)
  case Nil
  show ?case by simp
next
  case (Cons x xs)
  obtain a1 b1 e1 e2 where step: "expand_step T (a, b, es) = (a1, b1, es @ [e1, e2])"
    by (simp add: expand_step_def Let_def)
  from Cons.IH [of a1 b1 "es @ [e1, e2]"]
  obtain a' b' more where
    "fold (\<lambda>_. expand_step T) xs (a1, b1, es @ [e1, e2]) = (a', b', (es @ [e1, e2]) @ more)"
    "length more = 2 * length xs"
    by blast
  then have "fold (\<lambda>_. expand_step T) (x # xs) (a, b, es) = (a', b', es @ ([e1, e2] @ more))
      \<and> length ([e1, e2] @ more) = 2 * length (x # xs)"
    by (simp add: step)
  then show ?case by blast
qed

lemma edge_loop_expand_shape:
  assumes "link_loops T e \<noteq> []"
  shows "\<exists>more. edge_loop_expand T e limit = Inr (e # more) \<and> length more = 2 * nat (limit - 1)"
proof -
  from assms obtain loop ls where ll: "link_loops T e = loop # ls"
    by (cases "link_loops T e") auto
  from fold_expand_step [of T "[1..limit - 1]" loop loop "[e]"]
  obtain a' b' more where
    "fold (\<lambda>_. expand_step T) [1..limit - 1] (loop, loop, [e]) = (a', b', [e] @ more)"
    "length more = 2 * length [1..limit - 1]"
    by blast
  then show ?thesis
    by (auto simp: edge_loop_expand_def ll)
qed

text \<open>
  Claim C2, as stated, fails: on a single quad, seed edge \<open>0\<close> and \<open>limit = 2\<close> give
  three edges, more than \<open>limit\<close>.
\<close>

theorem edge_loop_expand_limit_counterexample:
  "edge_loop_expand single_quad 0 2 = Inr [0, 2, 2] \<and> \<not> int (length [0::nat, 2, 2]) \<le> 2"
  by (simp add: edge_loop_expand_def single_quad_def expand_step_def upto.simps)

text \<open>
  Claim C2, amended. For every seed edge \<open>e\<close> and every \<open>limit \<ge> 1\<close>, the list returned
  by \<open>edge_loop_expand\<close> contains exactly \<open>2 * limit - 1\<close> edges (the seed, then one
  forward and one backward edge per iteration); that is at most \<open>limit\<close> only for
  \<open>limit = 1\<close>. A list is returned whenever the seed edge has a loop.
\<close>

theorem edge_loop_expand_count:
  assumes "1 \<le> limit"
  shows "(\<forall>es. edge_loop_expand T e limit = Inr es \<longrightarrow>
            int (length es) = 2 * limit - 1 \<and> (int (length es) \<le> limit \<longleftrightarrow> limit = 1))
       \<and> (link_loops T e \<noteq> [] \<longrightarrow> (\<exists>es. edge_loop_expand T e limit = Inr es))"
proof (cases "link_loops T e = []")
  case True
  then have "edge_loop_expand T e limit = Inl IndexError"
    by (simp add: edge_loop_expand_def)
  with True show ?thesis
    by simp
next
  case False
  from edge_loop_expand_shape [OF False, of limit]
  obtain more where "edge_loop_expand T e limit = Inr (e # more)"
    and "length more = 2 * nat (limit - 1)"
    by blast
  with assms show ?thesis
    by auto
qed

theorem edge_loop_expand_count_witness:
  "(1::int) \<le> 3 \<and> link_loops single_quad 0 \<noteq> []
   \<and> edge_loop_expand single_quad 0 3 = Inr [0, 2, 2, 0, 0]
   \<and> int (length [0::nat, 2, 2, 0, 0]) = 2 * 3 - 1"
proof -
  have lim: "(1::int) \<le> 3"
    by simp
  have loops: "link_loops single_quad 0 \<noteq> []"
    by (simp add: single_quad_def)
  have run: "edge_loop_expand single_quad 0 3 = Inr [0, 2, 2, 0, 0]"
    by (simp add: edge_loop_expand_def single_quad_def expand_step_def upto.simps)
  show ?thesis
    using lim loops run edge_loop_expand_count [OF lim, of single_quad 0] by simp
qed

text \<open>
  Claim C10, as stated, fails for a wire edge: \<^verbatim>\<open>e.link_loops[0]\<close> raises before
  anything is returned, also with the default \<open>limit = 0\<close>.
\<close>

theorem edge_loop_expand_wire_counterexample:
  "link_loops single_quad 9 = [] \<and> edge_loop_expand single_quad 9 0 = Inl IndexError"
  by (simp add: edge_loop_expand_def single_quad_def)

text \<open>
  Claim C10, amended. For every seed edge \<open>e\<close> that has at least one loop and every
  non-negative \<open>limit\<close>, \<open>edge_loop_expand\<close> returns a list of exactly
  \<open>1 + 2 * max 0 (limit - 1)\<close> edges whose first element is \<open>e\<close>; with the default
  \<open>limit = 0\<close> it returns \<open>[e]\<close>.
\<close>

theorem edge_loop_expand_length:
  assumes "link_loops T e \<noteq> []" and "0 \<le> limit"
  shows "(\<exists>es. edge_loop_expand T e limit = Inr (e # es)
            \<and> int (length (e # es)) = 1 + 2 * max 0 (limit - 1))
       \<and> edge_loop_expand T e 0 = Inr [e]"
proof -
  from edge_loop_expand_shape [OF assms(1), of limit]
  obtain more where "edge_loop_expand T e limit = Inr (e # more)"
    and "length more = 2 * nat (limit - 1)"
    by blast
  then have "\<exists>es. edge_loop_expand T e limit = Inr (e # es)
            \<and> int (length (e # es)) = 1 + 2 * max 0 (limit - 1)"
    by auto
  moreover from edge_loop_expand_shape [OF assms(1), of 0]
  have "edge_loop_expand T e 0 = Inr [e]"
    by auto
  ultimately show ?thesis by blast
qed

theorem edge_loop_expand_length_witness:
  "link_loops single_quad 1 \<noteq> [] \<and> (0::int) \<le> 2
   \<and> edge_loop_expand single_quad 1 2 = Inr [1, 3, 3]
   \<and> int (length [1::nat, 3, 3]) = 1 + 2 * max 0 (2 - 1)
   \<and> edge_loop_expand single_quad 1 0 = Inr [1]"
proof -
  have loops: "link_loops single_quad 1 \<noteq> []"
    by (simp add: single_quad_def)
  have run: "edge_loop_expand single_quad 1 2 = Inr [1, 3, 3]"
    by (simp add: edge_loop_expand_def single_quad_def expand_step_def upto.simps)
  show ?thesis
    using loops run edge_loop_expand_length [OF loops, of 2] by simp
qed

subsection \<open>Localization table\<close>

lemma locale_EN_keys:
  "map fst locale_EN =
     [''prongs'', ''cutter'', ''make_gem'', ''make_dupliface'', ''export_options'', ''metals'',
      ''export_stats'', ''size'', ''shank'', ''dim'', ''weight'', ''t_size'', ''t_width'',
      ''t_thickness'', ''t_dim'', ''t_weight'', ''t_settings'', ''type'', ''cut'', ''qty'',
      ''items'', ''mm'', ''g'', ''ct'', ''g/cm'', ''24kt'', ''22kt'', ''18kt_white'',
      ''14kt_white'', ''18kt_yellow'', ''14kt_yellow'', ''silver'', ''palladium'', ''platinum'',
      ''custom'', ''custom_name'', ''diamond'', ''zircon'', ''topaz'', ''emerald'', ''ruby'',
      ''sapphire'', ''round'', ''oval'', ''pearl'', ''marquise'', ''baguette'', ''square'',
      ''error_file'', ''error_digit'']"
  by (simp add: locale_EN_def)

lemma locale_RU_keys: "map fst locale_RU = map fst locale_EN"
  unfolding locale_EN_keys by (simp add: locale_RU_def)

lemma locale_EN_distinct: "distinct (map fst locale_EN)"
  unfolding locale_EN_keys by simp

lemma locale_RU_distinct: "distinct (map fst locale_RU)"
  by (simp only: locale_RU_keys locale_EN_distinct)

lemma keys_RU_EN: "keys locale_RU = keys locale_EN"
  by (simp only: keys_def locale_RU_keys)

text \<open>
  Claim C9. The localization table has exactly two language codes, \<open>EN\<close> and \<open>RU\<close>, and
  any two of its language mappings have the same key set. (No key is written twice in
  a mapping, so the association lists are the dicts.)
\<close>

theorem locale_same_keys:
  "length locale_dict = 2
   \<and> map fst locale_dict = [''EN'', ''RU'']
   \<and> list_all (\<lambda>m1. list_all (\<lambda>m2. keys m1 = keys m2) (map snd locale_dict))
        (map snd locale_dict)
   \<and> list_all (\<lambda>m. distinct (map fst m)) (map snd locale_dict)"
  by (simp add: locale_dict_def keys_RU_EN locale_EN_distinct locale_RU_distinct)

subsection \<open>Volume estimation\<close>





subsection \<open>Curve length estimation\<close>

lemma reset_curve_settings0:
  "reset_curve c settings0 settings0 =
     (c\<lparr>bevel_object := None, bevel_depth := 0, extrude := 0\<rparr>,
      Inr [(''bevel_object'', case bevel_object c of None \<Rightarrow> PNone | Some b \<Rightarrow> PObject b),
           (''bevel_depth'', PFloat (bevel_depth c)),
           (''extrude'', PFloat (extrude c))])"
  by (simp add: settings0_def getattr_def setattr_def)

lemma restore_curve_saved:
  "restore_curve c'
     [(''bevel_object'', case b of None \<Rightarrow> PNone | Some x \<Rightarrow> PObject x),
      (''bevel_depth'', PFloat d), (''extrude'', PFloat x)] =
   (c'\<lparr>bevel_object := b, bevel_depth := d, extrude := x\<rparr>, Inr ())"
  by (cases b) (simp_all add: setattr_def)

text \<open>
  Claim C1, as stated, fails on the exceptional path: when \<^verbatim>\<open>calc_length()\<close> raises
  during the summation, the three properties are left at their reset values.
\<close>

theorem est_curve_length_raise_counterexample:
  "modifiers (objects scene0 0) \<noteq> []
   \<and> snd (est_curve_length failing_kernel scene0 0) = Inl ReferenceError
   \<and> data (objects scene0 0) = \<lparr>bevel_object = Some 7, bevel_depth = 2, extrude = 3\<rparr>
   \<and> data (objects (fst (est_curve_length failing_kernel scene0 0)) 0)
       = \<lparr>bevel_object = None, bevel_depth = 0, extrude = 0\<rparr>"
  by (simp add: est_curve_length_def reset_curve_settings0 set_data_def
      failing_kernel_def plain_kernel_def scene0_def)

text \<open>
  Claim C1, amended. For every curve object with at least one modifier, whenever
  \<open>est_curve_length\<close> returns normally the object's \<open>bevel_object\<close>, \<open>bevel_depth\<close> and
  \<open>extrude\<close> are equal to their values before the call (and no object has changed).
\<close>

theorem est_curve_length_restores:
  assumes "modifiers (objects s i) \<noteq> []"
    and "est_curve_length K s i = (s', Inr len)"
  shows "bevel_object (data (objects s' i)) = bevel_object (data (objects s i))
       \<and> bevel_depth (data (objects s' i)) = bevel_depth (data (objects s i))
       \<and> extrude (data (objects s' i)) = extrude (data (objects s i))
       \<and> objects s' = objects s"
proof -
  let ?c = "data (objects s i)"
  let ?c0 = "?c\<lparr>bevel_object := None, bevel_depth := 0, extrude := 0\<rparr>"
  let ?s1 = "set_data s i ?c0"
  from assms obtain me where me: "to_mesh K (objects ?s1 i) = Inr me"
    by (cases "to_mesh K (objects ?s1 i)")
      (auto simp: est_curve_length_def reset_curve_settings0 Let_def)
  from assms me obtain bm where
    bm: "from_mesh K (new_mesh K) (transform K (objects ?s1 i) me) = Inr bm"
    by (cases "from_mesh K (new_mesh K) (transform K (objects ?s1 i) me)")
      (auto simp: est_curve_length_def reset_curve_settings0 Let_def)
  from assms me bm obtain l where l: "sum_lengths 0.0 (edge_lengths K bm) = Inr l"
    by (cases "sum_lengths 0.0 (edge_lengths K bm)")
      (auto simp: est_curve_length_def reset_curve_settings0 Let_def)
  from assms me bm l have "s' = s\<lparr>snapshots := snapshots s - {i}\<rparr>"
    by (auto simp add: est_curve_length_def reset_curve_settings0 restore_curve_saved
        Let_def set_data_def simp del: restore_curve.simps)
  then have "objects s' = objects s"
    by simp
  then show ?thesis by simp
qed

theorem est_curve_length_restores_witness:
  "modifiers (objects scene0 0) \<noteq> []
   \<and> est_curve_length plain_kernel scene0 0 = (scene0, Inr 5)
   \<and> bevel_depth (data (objects scene0 0)) = 2"
proof -
  have mods: "modifiers (objects scene0 0) \<noteq> []"
    by (simp add: scene0_def)
  have run: "est_curve_length plain_kernel scene0 0 = (scene0, Inr 5)"
    by (simp add: est_curve_length_def reset_curve_settings0 setattr_def
        set_data_def plain_kernel_def scene0_def fun_eq_iff)
  show ?thesis
    using mods run est_curve_length_restores [OF mods run] by (simp add: scene0_def)
qed

subsection \<open>Edges of the arena\<close>

lemma joins_upair: "joins e a b \<longleftrightarrow> upair e = {a, b}"
  by (cases e) (auto simp: joins_def upair_def doubleton_eq_iff)

lemma edge_index_None: "edge_index es a b = None \<longleftrightarrow> {a, b} \<notin> upair ` set es"
  by (induction es) (auto simp: joins_upair)

lemma new_edges_fresh:
  assumes "\<forall>p\<in>set ps. valid_vert bm (fst p) \<and> valid_vert bm (snd p) \<and> fst p \<noteq> snd p"
    and "distinct (map upair ps)"
    and "upair ` set ps \<inter> upair ` set (edges bm) = {}"
  shows "new_edges bm ps =
           Inr (bm\<lparr>edges := edges bm @ ps\<rparr>,
                [length (edges bm) ..< length (edges bm) + length ps])"
  using assms
proof (induction ps arbitrary: bm)
  case Nil
  show ?case by simp
next
  case (Cons p ps)
  obtain a b where p: "p = (a, b)" by (cases p)
  let ?bm1 = "bm\<lparr>edges := edges bm @ [(a, b)]\<rparr>"
  from Cons.prems p have "valid_vert bm a" "valid_vert bm b" "a \<noteq> b"
    by auto
  moreover from Cons.prems(3) p have "edge_index (edges bm) a b = None"
    by (auto simp: edge_index_None upair_def)
  ultimately have step: "edges_new bm p = Inr (?bm1, length (edges bm))"
    by (simp add: edges_new_def p)
  have "\<forall>q\<in>set ps. valid_vert ?bm1 (fst q) \<and> valid_vert ?bm1 (snd q) \<and> fst q \<noteq> snd q"
    using Cons.prems(1) by (simp add: valid_vert_def)
  moreover have "distinct (map upair ps)"
    using Cons.prems(2) by simp
  moreover have "upair ` set ps \<inter> upair ` set (edges ?bm1) = {}"
    using Cons.prems(2,3) p by auto
  ultimately have rest: "new_edges ?bm1 ps =
      Inr (?bm1\<lparr>edges := edges ?bm1 @ ps\<rparr>,
           [length (edges ?bm1) ..< length (edges ?bm1) + length ps])"
    by (rule Cons.IH)
  have "[length (edges bm) ..< length (edges bm) + length (p # ps)] =
        length (edges bm) # [Suc (length (edges bm)) ..< Suc (length (edges bm)) + length ps]"
    by (subst upt_conv_Cons) simp_all
  with step rest show ?case
    by (simp add: p)
qed

subsection \<open>Rings\<close>

lemma length_pairwise_cyclic: "length (pairwise_cyclic vs) = length vs"
  by (simp add: pairwise_cyclic_def)

lemma pairwise_cyclic_nth:
  "i < length vs \<Longrightarrow> pairwise_cyclic vs ! i = (vs ! i, vs ! (Suc i mod length vs))"
  by (simp add: pairwise_cyclic_def nth_rotate1)

lemma pairwise_cyclic_map:
  "pairwise_cyclic vs = map (\<lambda>i. (vs ! i, vs ! ((i + 1) mod length vs))) [0..<length vs]"
  by (rule nth_equalityI) (simp_all add: length_pairwise_cyclic pairwise_cyclic_nth)

lemma succ_mod_less: "i < n \<Longrightarrow> Suc i mod n < n"
  using mod_less_divisor [of n "Suc i"] by auto

lemma succ_mod_neq: "i < n \<Longrightarrow> 2 \<le> n \<Longrightarrow> Suc i mod n \<noteq> i"
  by (simp add: mod_Suc)

lemma succ_succ_mod_neq: "i < n \<Longrightarrow> 3 \<le> n \<Longrightarrow> Suc (Suc i mod n) mod n \<noteq> i"
  by (auto simp: mod_Suc split: if_splits)

lemma ring_steps_differ:
  assumes "i < n" "j < n" "i \<noteq> j" "3 \<le> n"
  shows "{i, Suc i mod n} \<noteq> {j, Suc j mod n}"
proof
  assume eq: "{i, Suc i mod n} = {j, Suc j mod n}"
  with assms(3) have "i = Suc j mod n" "Suc i mod n = j"
    by (auto simp: doubleton_eq_iff)
  then have "Suc (Suc j mod n) mod n = j"
    by simp
  with succ_succ_mod_neq [OF assms(2,4)] show False
    by simp
qed

lemma ring_pairs_proper:
  assumes "distinct vs" "2 \<le> length vs" "p \<in> set (pairwise_cyclic vs)"
  shows "fst p \<noteq> snd p"
proof -
  from assms(3) obtain i where i: "i < length vs" and p: "p = pairwise_cyclic vs ! i"
    by (auto simp: in_set_conv_nth length_pairwise_cyclic)
  have "Suc i mod length vs < length vs"
    using i by (rule succ_mod_less)
  with assms(1,2) i have "vs ! i \<noteq> vs ! (Suc i mod length vs)"
    using succ_mod_neq [of i "length vs"] by (auto simp: nth_eq_iff_index_eq)
  with i p show ?thesis
    by (simp add: pairwise_cyclic_nth)
qed

lemma ring_pairs_distinct:
  assumes "distinct vs" "3 \<le> length vs"
  shows "distinct (map upair (pairwise_cyclic vs))"
proof -
  let ?n = "length vs"
  have "upair (pairwise_cyclic vs ! i) \<noteq> upair (pairwise_cyclic vs ! j)"
    if ij: "i < ?n" "j < ?n" "i \<noteq> j" for i j
  proof
    assume "upair (pairwise_cyclic vs ! i) = upair (pairwise_cyclic vs ! j)"
    with ij have "{vs ! i, vs ! (Suc i mod ?n)} = {vs ! j, vs ! (Suc j mod ?n)}"
      by (simp add: pairwise_cyclic_nth upair_def)
    then have img: "(\<lambda>k. vs ! k) ` {i, Suc i mod ?n} = (\<lambda>k. vs ! k) ` {j, Suc j mod ?n}"
      by simp
    have inj: "inj_on (\<lambda>k. vs ! k) {..<?n}"
      using assms(1) by (auto simp: inj_on_def nth_eq_iff_index_eq)
    have "Suc i mod ?n < ?n" "Suc j mod ?n < ?n"
      using ij by (blast intro: succ_mod_less)+
    then have sub: "{i, Suc i mod ?n} \<subseteq> {..<?n}" "{j, Suc j mod ?n} \<subseteq> {..<?n}"
      using ij by simp_all
    from inj_on_image_eq_iff [OF inj sub] img have "{i, Suc i mod ?n} = {j, Suc j mod ?n}"
      by blast
    with ring_steps_differ [OF ij assms(2)] show False
      by simp
  qed
  then show ?thesis
    by (simp add: distinct_conv_nth length_pairwise_cyclic)
qed

lemma distinct_ring_pairs:
  fixes vs :: "nat list"
  assumes "distinct vs" and "3 \<le> length vs"
  shows "(\<forall>i<length vs. vs ! i \<noteq> vs ! ((i + 1) mod length vs))
       \<and> (\<forall>i<length vs. \<forall>j<length vs. i \<noteq> j \<longrightarrow>
            {vs ! i, vs ! ((i + 1) mod length vs)} \<noteq> {vs ! j, vs ! ((j + 1) mod length vs)})"
proof (intro conjI allI impI)
  fix i assume i: "i < length vs"
  then have "pairwise_cyclic vs ! i \<in> set (pairwise_cyclic vs)"
    by (simp add: length_pairwise_cyclic)
  with assms have "fst (pairwise_cyclic vs ! i) \<noteq> snd (pairwise_cyclic vs ! i)"
    by (intro ring_pairs_proper) simp_all
  with i show "vs ! i \<noteq> vs ! ((i + 1) mod length vs)"
    by (simp add: pairwise_cyclic_nth)
next
  fix i j assume ij: "i < length vs" "j < length vs" "i \<noteq> j"
  have li: "i < length (map upair (pairwise_cyclic vs))"
    and lj: "j < length (map upair (pairwise_cyclic vs))"
    using ij by (simp_all add: length_pairwise_cyclic)
  from nth_eq_iff_index_eq [OF ring_pairs_distinct [OF assms] li lj] ij(3)
  have "map upair (pairwise_cyclic vs) ! i \<noteq> map upair (pairwise_cyclic vs) ! j"
    by blast
  with ij show "{vs ! i, vs ! ((i + 1) mod length vs)} \<noteq> {vs ! j, vs ! ((j + 1) mod length vs)}"
    by (simp add: length_pairwise_cyclic pairwise_cyclic_nth upair_def)
qed

text \<open>
  Claim C5, as stated, fails for a ring that passes through a vertex twice: in the ring
  \<open>0, 1, 0, 2\<close> of four vertices, with no edge in the mesh, the second pair asks for the
  edge that the first pair has just created, and the kernel raises.
\<close>

theorem make_edges_repeat_counterexample:
  "3 \<le> length [0::nat, 1, 0, 2] \<and> edges six_verts = []
   \<and> make_edges six_verts [0, 1, 0, 2] = Inl ValueError"
  by (simp add: make_edges_def pairwise_cyclic_def edges_new_def valid_vert_def
      joins_def six_verts_def)

text \<open>
  Claim C5, amended. For every ordered ring \<open>vs\<close> of \<open>N \<ge> 3\<close> vertices of the mesh in
  which consecutive vertices differ and no two of the consecutive cyclic pairs join the
  same two vertices (every ring of distinct vertices is one, by \<open>distinct_ring_pairs\<close>),
  and with no edge yet between two consecutive vertices, \<open>make_edges\<close> returns exactly
  \<open>N\<close> new edges, in ring order: the \<open>i\<close>-th joins vertex \<open>i\<close> to vertex
  \<open>(i + 1) mod N\<close>. So the multiset of the pairs they connect is that of the consecutive
  cyclic pairs.
\<close>

theorem make_edges_ring:
  assumes "3 \<le> length vs" and "\<forall>v\<in>set vs. valid_vert bm v"
    and "\<forall>i<length vs. vs ! i \<noteq> vs ! ((i + 1) mod length vs)"
    and "\<forall>i<length vs. \<forall>j<length vs. i \<noteq> j \<longrightarrow>
           {vs ! i, vs ! ((i + 1) mod length vs)} \<noteq> {vs ! j, vs ! ((j + 1) mod length vs)}"
    and "\<forall>i<length vs. edge_index (edges bm) (vs ! i) (vs ! ((i + 1) mod length vs)) = None"
  shows "\<exists>bm' es. make_edges bm vs = Inr (bm', es)
       \<and> length es = length vs
       \<and> es = [length (edges bm) ..< length (edges bm) + length vs]
       \<and> map (\<lambda>e. edges bm' ! e) es
           = map (\<lambda>i. (vs ! i, vs ! ((i + 1) mod length vs))) [0..<length vs]
       \<and> mset (map (\<lambda>e. edges bm' ! e) es)
           = mset (map (\<lambda>i. (vs ! i, vs ! ((i + 1) mod length vs))) [0..<length vs])
       \<and> verts bm' = verts bm \<and> faces bm' = faces bm"
proof -
  let ?ps = "pairwise_cyclic vs"
  let ?n = "length (edges bm)"
  let ?bm' = "bm\<lparr>edges := edges bm @ ?ps\<rparr>"
  let ?es = "[?n ..< ?n + length vs]"
  have valid: "\<forall>p\<in>set ?ps. valid_vert bm (fst p) \<and> valid_vert bm (snd p) \<and> fst p \<noteq> snd p"
  proof
    fix p assume p: "p \<in> set ?ps"
    then have "(fst p, snd p) \<in> set (zip vs (rotate1 vs))"
      by (simp add: pairwise_cyclic_def)
    then have "fst p \<in> set vs" "snd p \<in> set (rotate1 vs)"
      by (rule set_zip_leftD, rule set_zip_rightD)
    then have "fst p \<in> set vs" "snd p \<in> set vs"
      by simp_all
    moreover from p obtain i where i: "i < length vs" and pi: "p = ?ps ! i"
      by (auto simp: in_set_conv_nth length_pairwise_cyclic)
    from assms(3) i have "vs ! i \<noteq> vs ! ((i + 1) mod length vs)"
      by blast
    with i pi have "fst p \<noteq> snd p"
      by (simp add: pairwise_cyclic_nth)
    ultimately show "valid_vert bm (fst p) \<and> valid_vert bm (snd p) \<and> fst p \<noteq> snd p"
      using assms(2) by simp
  qed
  have pairs: "distinct (map upair ?ps)"
  proof -
    have "map upair ?ps ! i \<noteq> map upair ?ps ! j"
      if ij: "i < length vs" "j < length vs" "i \<noteq> j" for i j
    proof -
      from assms(4) ij
      have "{vs ! i, vs ! ((i + 1) mod length vs)} \<noteq> {vs ! j, vs ! ((j + 1) mod length vs)}"
        by blast
      with ij show ?thesis
        by (simp add: length_pairwise_cyclic pairwise_cyclic_nth upair_def)
    qed
    then show ?thesis
      by (simp add: distinct_conv_nth length_pairwise_cyclic)
  qed
  have fresh: "upair ` set ?ps \<inter> upair ` set (edges bm) = {}"
  proof -
    have "upair p \<notin> upair ` set (edges bm)" if "p \<in> set ?ps" for p
    proof -
      from that obtain i where i: "i < length vs" and p: "p = ?ps ! i"
        by (auto simp: in_set_conv_nth length_pairwise_cyclic)
      from assms(5) i
      have "edge_index (edges bm) (vs ! i) (vs ! ((i + 1) mod length vs)) = None"
        by blast
      with i p show ?thesis
        by (simp add: edge_index_None pairwise_cyclic_nth upair_def)
    qed
    then show ?thesis by blast
  qed
  have run: "make_edges bm vs = Inr (?bm', ?es)"
    unfolding make_edges_def
    using new_edges_fresh [OF valid pairs fresh]
    by (simp add: length_pairwise_cyclic)
  have "map (\<lambda>e. edges ?bm' ! e) ?es = ?ps"
    by (rule nth_equalityI) (simp_all add: length_pairwise_cyclic nth_append)
  then have eq: "map (\<lambda>e. edges ?bm' ! e) ?es
      = map (\<lambda>i. (vs ! i, vs ! ((i + 1) mod length vs))) [0..<length vs]"
    by (simp only: pairwise_cyclic_map [symmetric])
  then have meq: "mset (map (\<lambda>e. edges ?bm' ! e) ?es)
      = mset (map (\<lambda>i. (vs ! i, vs ! ((i + 1) mod length vs))) [0..<length vs])"
    by (rule arg_cong)
  have "length ?es = length vs" "verts ?bm' = verts bm" "faces ?bm' = faces bm"
    by simp_all
  with run eq meq show ?thesis
    by blast
qed

theorem make_edges_ring_witness:
  "(3::nat) \<le> length [0::nat, 1, 2, 0, 3, 4]
   \<and> make_edges six_verts [0, 1, 2, 0, 3, 4]
       = Inr (six_verts\<lparr>edges := [(0, 1), (1, 2), (2, 0), (0, 3), (3, 4), (4, 0)]\<rparr>,
              [0, 1, 2, 3, 4, 5])"
proof -
  let ?vs = "[0::nat, 1, 2, 0, 3, 4]"
  have len: "3 \<le> length ?vs"
    by simp
  have valid: "\<forall>v\<in>set ?vs. valid_vert six_verts v"
    by (simp add: valid_vert_def six_verts_def)
  have six: "{..<length ?vs} = {0, 1, 2, 3, 4, 5}"
    by auto
  have proper: "\<forall>i<length ?vs. ?vs ! i \<noteq> ?vs ! ((i + 1) mod length ?vs)"
    unfolding lessThan_iff [symmetric] six by simp
  have apart: "\<forall>i<length ?vs. \<forall>j<length ?vs. i \<noteq> j \<longrightarrow>
      {?vs ! i, ?vs ! ((i + 1) mod length ?vs)} \<noteq> {?vs ! j, ?vs ! ((j + 1) mod length ?vs)}"
    unfolding lessThan_iff [symmetric] six by (simp add: doubleton_eq_iff)
  have fresh: "\<forall>i<length ?vs.
      edge_index (edges six_verts) (?vs ! i) (?vs ! ((i + 1) mod length ?vs)) = None"
    by (simp add: six_verts_def)
  have run: "make_edges six_verts ?vs
       = Inr (six_verts\<lparr>edges := [(0, 1), (1, 2), (2, 0), (0, 3), (3, 4), (4, 0)]\<rparr>,
              [0, 1, 2, 3, 4, 5])"
    by (simp add: make_edges_def pairwise_cyclic_def edges_new_def valid_vert_def
        joins_def six_verts_def)
  show ?thesis
    using len run make_edges_ring [OF len valid proper apart fresh] by simp
qed

subsection \<open>Vertex duplication\<close>

lemma length_filter_members:
  assumes "distinct g" and "\<forall>v\<in>set g. v < n"
  shows "length (filter (\<lambda>v. v \<in> set g) [0..<n]) = length g"
proof -
  have "length (filter (\<lambda>v. v \<in> set g) [0..<n]) = card ({v. v \<in> set g} \<inter> set [0..<n])"
    by (rule distinct_length_filter) simp
  also from assms(2) have "{v. v \<in> set g} \<inter> set [0..<n] = set g"
    by auto
  also from assms(1) have "card (set g) = length g"
    by (rule distinct_card)
  finally show ?thesis .
qed

lemma map_filter_BMVert:
  "List.map_filter (\<lambda>x. case x of BMVert v \<Rightarrow> Some v | _ \<Rightarrow> None) (map BMVert xs) = xs"
  by (induction xs) (simp_all add: map_filter_simps)

lemma fold_set_z_length:
  "length (verts (fold (\<lambda>v bm'. set_z fl bm' v z) vs bm)) = length (verts bm)"
  by (induction vs arbitrary: bm) (simp_all add: set_z_def)

lemma fold_set_z_other:
  "v \<notin> set vs \<Longrightarrow> verts (fold (\<lambda>v bm'. set_z fl bm' v z) vs bm) ! v = verts bm ! v"
  by (induction vs arbitrary: bm) (simp_all add: set_z_def)

lemma fold_set_z_member:
  assumes "v \<in> set vs" and "v < length (verts bm)"
  shows "snd (snd (verts (fold (\<lambda>v bm'. set_z fl bm' v z) vs bm) ! v)) = fl z"
  using assms
proof (induction vs arbitrary: bm)
  case Nil
  then show ?case by simp
next
  case (Cons a vs)
  have len: "v < length (verts (set_z fl bm a z))"
    using Cons.prems(2) by (simp add: set_z_def)
  show ?case
  proof (cases "v \<in> set vs")
    case True
    from Cons.IH [OF True len] show ?thesis by simp
  next
    case False
    with Cons.prems(1) have va: "v = a" by simp
    from False have "verts (fold (\<lambda>v bm'. set_z fl bm' v z) vs (set_z fl bm a z)) ! v
        = verts (set_z fl bm a z) ! v"
      by (rule fold_set_z_other)
    moreover from Cons.prems(2) have "snd (snd (verts (set_z fl bm a z) ! v)) = fl z"
      by (simp add: va set_z_def split: prod.splits)
    ultimately show ?thesis by simp
  qed
qed

text \<open>
  Claim C6, as stated, fails twice over. For a sequence that names a vertex twice the
  kernel's duplicate raises, and no vertex is returned. And the z-coordinate is stored
  as a 32-bit float: for \<open>Z = 2 powr (- 160)\<close> (a Python float) the returned vertex has
  z-coordinate \<open>0\<close>, not \<open>Z\<close>.
\<close>

theorem duplicate_verts_repeat_counterexample:
  "duplicate_verts float32 four_verts [0, 0] (Some 9) = Inl ValueError
   \<and> duplicate_verts float32 four_verts [0] (Some (2 powr (- 160)))
       = Inr (four_verts\<lparr>verts := verts four_verts @ [(Fin 1, Fin 0, Fin 0)]\<rparr>, [4])
   \<and> Fin 0 \<noteq> Fin (2 powr (- 160))"
  by (simp add: duplicate_verts_def ops_duplicate_def valid_vert_def four_verts_def
      map_filter_simps set_z_def upt_rec float32_tiny)

text \<open>
  Claim C6, amended. For every sequence \<open>V\<close> of distinct vertices of the mesh and every
  height \<open>Z\<close>, \<open>duplicate_verts\<close> with \<open>z = Z\<close> returns exactly \<open>|V|\<close> newly created
  vertices, every returned vertex has as z-coordinate \<open>Z\<close> rounded to a 32-bit float
  (exactly \<open>Z\<close> when \<open>Z\<close> is a 32-bit float), and the coordinates of all vertices that
  existed before the call are unchanged.
\<close>

theorem duplicate_verts_z:
  assumes "distinct V" and "\<forall>v\<in>set V. valid_vert bm v"
  shows "\<exists>bm' vs. duplicate_verts float32 bm V (Some Z) = Inr (bm', vs)
       \<and> length vs = length V
       \<and> vs = [length (verts bm) ..< length (verts bm) + length V]
       \<and> length (verts bm') = length (verts bm) + length V
       \<and> (\<forall>v\<in>set vs. snd (snd (co bm' v)) = float32 Z)
       \<and> (float32 Z = Fin Z \<longrightarrow> (\<forall>v\<in>set vs. snd (snd (co bm' v)) = Fin Z))
       \<and> (\<forall>v<length (verts bm). co bm' v = co bm v)"
proof -
  let ?n = "length (verts bm)"
  let ?src = "filter (\<lambda>v. v \<in> set V) [0..<?n]"
  let ?bm1 = "bm\<lparr>verts := verts bm @ map (\<lambda>v. verts bm ! v) ?src\<rparr>"
  let ?vs = "[?n ..< ?n + length V]"
  let ?bm' = "fold (\<lambda>v bm'. set_z float32 bm' v Z) ?vs ?bm1"
  from assms have src: "length ?src = length V"
    by (intro length_filter_members) (simp_all add: valid_vert_def)
  from assms have "ops_duplicate bm V = Inr (?bm1, map BMVert [?n ..< ?n + length ?src])"
    by (simp add: ops_duplicate_def list_all_iff Let_def)
  then have run: "duplicate_verts float32 bm V (Some Z) = Inr (?bm', ?vs)"
    by (simp add: duplicate_verts_def map_filter_BMVert src Let_def)
  have len: "length (verts ?bm') = ?n + length V"
    by (simp add: fold_set_z_length src)
  have new: "snd (snd (co ?bm' v)) = float32 Z" if "v \<in> set ?vs" for v
    unfolding co_def using that by (intro fold_set_z_member) (simp_all add: src)
  have old: "co ?bm' v = co bm v" if "v < ?n" for v
    unfolding co_def using that by (simp add: fold_set_z_other nth_append)
  from run len new old show ?thesis
    by auto
qed

theorem duplicate_verts_z_witness:
  "distinct [2::nat, 0]
   \<and> duplicate_verts float32 four_verts [2, 0] (Some 5)
       = Inr (four_verts\<lparr>verts := verts four_verts @ [(Fin 1, Fin 0, Fin 5), (Fin 1, Fin 0, Fin 5)]\<rparr>,
              [4, 5])
   \<and> length [4::nat, 5] = length [2::nat, 0] \<and> float32 5 = Fin 5"
proof -
  have dist: "distinct [2::nat, 0]"
    by simp
  have valid: "\<forall>v\<in>set [2::nat, 0]. valid_vert four_verts v"
    by (simp add: valid_vert_def four_verts_def)
  have run: "duplicate_verts float32 four_verts [2, 0] (Some 5)
       = Inr (four_verts\<lparr>verts := verts four_verts @ [(Fin 1, Fin 0, Fin 5), (Fin 1, Fin 0, Fin 5)]\<rparr>,
              [4, 5])"
    by (simp add: duplicate_verts_def ops_duplicate_def valid_vert_def four_verts_def
        map_filter_simps set_z_def upt_rec float32_5)
  show ?thesis
    using dist run duplicate_verts_z [OF dist valid, of 5] by (simp add: float32_5)
qed

subsection \<open>Face creation\<close>

lemma edge_index_Some:
  "edge_index es a b = Some i \<Longrightarrow> i < length es \<and> joins (es ! i) a b"
  by (induction es arbitrary: i) (auto split: if_splits)

lemma grows_refl: "grows bm bm"
  by (simp add: grows_def)

lemma grows_trans: "grows bm bm1 \<Longrightarrow> grows bm1 bm2 \<Longrightarrow> grows bm bm2"
  by (auto simp: grows_def)

lemma edge_joins_grows: "grows bm bm' \<Longrightarrow> edge_joins bm e a b \<Longrightarrow> edge_joins bm' e a b"
  by (auto simp: grows_def edge_joins_def nth_append)

lemma face_ok_grows: "grows bm bm' \<Longrightarrow> face_ok bm f q \<Longrightarrow> face_ok bm' f q"
  by (auto simp: face_ok_def intro: edge_joins_grows)

lemma valid_vert_grows: "grows bm bm' \<Longrightarrow> valid_vert bm' v = valid_vert bm v"
  by (simp add: grows_def valid_vert_def)

lemma edge_ensure_joins:
  assumes "edge_ensure bm (a, b) = (bm', e)"
  shows "grows bm bm' \<and> faces bm' = faces bm \<and> edge_joins bm' e a b"
proof (cases "edge_index (edges bm) a b")
  case None
  with assms have "bm' = bm\<lparr>edges := edges bm @ [(a, b)]\<rparr>" "e = length (edges bm)"
    by (simp_all add: edge_ensure_def)
  then show ?thesis
    by (simp add: grows_def edge_joins_def joins_def)
next
  case (Some i)
  with assms have "bm' = bm" "e = i"
    by (simp_all add: edge_ensure_def)
  with edge_index_Some [OF Some] show ?thesis
    by (simp add: grows_refl edge_joins_def)
qed

lemma ensure_edges_joins:
  assumes "ensure_edges bm ps = (bm', es)"
  shows "grows bm bm' \<and> faces bm' = faces bm \<and> length es = length ps
       \<and> (\<forall>k<length ps. edge_joins bm' (es ! k) (fst (ps ! k)) (snd (ps ! k)))"
  using assms
proof (induction ps arbitrary: bm bm' es)
  case Nil
  then show ?case by (simp add: grows_refl)
next
  case (Cons p ps)
  obtain a b where p: "p = (a, b)" by (cases p)
  obtain bm1 e where first: "edge_ensure bm (a, b) = (bm1, e)"
    by (cases "edge_ensure bm (a, b)")
  obtain bm2 es' where rest: "ensure_edges bm1 ps = (bm2, es')"
    by (cases "ensure_edges bm1 ps")
  from Cons.prems p first rest have res: "bm' = bm2" "es = e # es'"
    by simp_all
  from edge_ensure_joins [OF first]
  have g1: "grows bm bm1" and f1: "faces bm1 = faces bm" and j1: "edge_joins bm1 e a b"
    by simp_all
  from Cons.IH [OF rest]
  have g2: "grows bm1 bm2" and f2: "faces bm2 = faces bm1" and l2: "length es' = length ps"
    and j2: "\<And>k. k < length ps \<Longrightarrow> edge_joins bm2 (es' ! k) (fst (ps ! k)) (snd (ps ! k))"
    by simp_all
  have "edge_joins bm' (es ! k) (fst ((p # ps) ! k)) (snd ((p # ps) ! k))"
    if "k < length (p # ps)" for k
  proof (cases k)
    case 0
    with edge_joins_grows [OF g2 j1] show ?thesis
      by (simp add: res p)
  next
    case (Suc k')
    with that j2 [of k'] show ?thesis
      by (simp add: res)
  qed
  with grows_trans [OF g1 g2] f1 f2 l2 show ?case
    by (simp add: res)
qed

lemma face_match_set:
  assumes "face_match f vs"
  shows "set (map fst f) = set vs"
proof -
  from assms obtain k where
    "rotate k (map fst f) = vs \<or> rotate k (rev (map fst f)) = vs"
    by (auto simp: face_match_def list_ex_iff)
  then show ?thesis
    by (metis set_rotate set_rev)
qed

lemma faces_new_ok:
  assumes "3 \<le> length q" and "distinct q" and "\<forall>v\<in>set q. valid_vert bm v"
    and "\<not> face_exists bm q"
  shows "\<exists>bm' f. faces_new bm q = Inr (bm', length (faces bm))
       \<and> grows bm bm' \<and> faces bm' = faces bm @ [f] \<and> face_ok bm' f q"
proof -
  let ?ps = "zip q (rotate1 q)"
  obtain bm1 es where ens: "ensure_edges bm ?ps = (bm1, es)"
    by (cases "ensure_edges bm ?ps")
  from ensure_edges_joins [OF ens]
  have g: "grows bm bm1" and f: "faces bm1 = faces bm" and l: "length es = length q"
    and j: "\<And>k. k < length q \<Longrightarrow> edge_joins bm1 (es ! k) (fst (?ps ! k)) (snd (?ps ! k))"
    by simp_all
  let ?bm' = "bm1\<lparr>faces := faces bm1 @ [zip q es]\<rparr>"
  have g': "grows bm1 ?bm'"
    by (simp add: grows_def)
  from assms ens f have run: "faces_new bm q = Inr (?bm', length (faces bm))"
    by (simp add: faces_new_def list_all_iff)
  have "edge_joins ?bm' (snd (zip q es ! k)) (q ! k) (q ! (Suc k mod length q))"
    if "k < length q" for k
    using edge_joins_grows [OF g' j [OF that]] that l by (simp add: nth_rotate1)
  then have "face_ok ?bm' (zip q es) q"
    by (simp add: face_ok_def l)
  with run grows_trans [OF g g'] f show ?thesis
    by auto
qed

lemma new_faces_ok:
  assumes "\<forall>q\<in>set qs. 3 \<le> length q \<and> distinct q \<and> (\<forall>v\<in>set q. valid_vert bm v)"
    and "distinct (map set qs)"
    and "\<forall>q\<in>set qs. \<not> face_exists bm q"
  shows "\<exists>bm' fs. new_faces bm qs =
            Inr (bm', [length (faces bm) ..< length (faces bm) + length qs])
       \<and> grows bm bm' \<and> faces bm' = faces bm @ fs \<and> list_all2 (face_ok bm') fs qs"
  using assms
proof (induction qs arbitrary: bm)
  case Nil
  show ?case by (simp add: grows_refl)
next
  case (Cons q qs)
  let ?n = "length (faces bm)"
  from Cons.prems have "3 \<le> length q" "distinct q" "\<forall>v\<in>set q. valid_vert bm v"
    "\<not> face_exists bm q"
    by simp_all
  from faces_new_ok [OF this]
  obtain bm1 f where first: "faces_new bm q = Inr (bm1, ?n)"
    and g1: "grows bm bm1" and f1: "faces bm1 = faces bm @ [f]" and ok1: "face_ok bm1 f q"
    by blast
  have "\<forall>r\<in>set qs. 3 \<le> length r \<and> distinct r \<and> (\<forall>v\<in>set r. valid_vert bm1 v)"
    using Cons.prems(1) by (simp add: valid_vert_grows [OF g1])
  moreover have "distinct (map set qs)"
    using Cons.prems(2) by simp
  moreover have "\<forall>r\<in>set qs. \<not> face_exists bm1 r"
  proof
    fix r assume r: "r \<in> set qs"
    with Cons.prems(3) have "\<not> face_exists bm r"
      by simp
    moreover have "\<not> face_match f r"
    proof
      assume "face_match f r"
      then have "set (map fst f) = set r"
        by (rule face_match_set)
      with ok1 have "set q = set r"
        by (simp add: face_ok_def)
      with Cons.prems(2) r show False
        by auto
    qed
    ultimately show "\<not> face_exists bm1 r"
      by (simp add: face_exists_def f1)
  qed
  ultimately obtain bm2 fs where
    rest: "new_faces bm1 qs = Inr (bm2, [length (faces bm1) ..< length (faces bm1) + length qs])"
    and g2: "grows bm1 bm2" and f2: "faces bm2 = faces bm1 @ fs"
    and ok2: "list_all2 (face_ok bm2) fs qs"
    using Cons.IH [of bm1] by blast
  have "[?n ..< ?n + length (q # qs)] = ?n # [Suc ?n ..< Suc ?n + length qs]"
    by (subst upt_conv_Cons) simp_all
  with first rest f1
  have "new_faces bm (q # qs) = Inr (bm2, [?n ..< ?n + length (q # qs)])"
    by simp
  moreover have "faces bm2 = faces bm @ (f # fs)"
    by (simp add: f1 f2)
  moreover have "list_all2 (face_ok bm2) (f # fs) (q # qs)"
    using face_ok_grows [OF g2 ok1] ok2 by simp
  ultimately show ?case
    using grows_trans [OF g1 g2] by blast
qed

lemma second_edges_result:
  assumes "\<forall>f\<in>set fs. 1 < length (faces bm ! f)"
  shows "second_edges bm fs = Inr (map (\<lambda>f. snd (faces bm ! f ! 1)) fs)"
  using assms by (induction fs) (simp_all add: getitem_def face_edges_def)

subsection \<open>Bridging two rings\<close>

lemma length_quadwise_cyclic:
  "length a = length b \<Longrightarrow> length (quadwise_cyclic a b) = length a"
  by (simp add: quadwise_cyclic_def)

lemma quadwise_cyclic_nth:
  assumes "length a = length b" and "i < length a"
  shows "quadwise_cyclic a b ! i =
           [a ! (Suc i mod length a), a ! i, b ! i, b ! (Suc i mod length a)]"
  using assms by (simp add: quadwise_cyclic_def nth_rotate1)

lemma quad_step_set:
  fixes a b :: "nat list"
  assumes "length a = length b" and "i < length a" and "set a \<inter> set b = {}"
  shows "set (quadwise_cyclic a b ! i) \<inter> set a = upair (pairwise_cyclic a ! i)"
proof -
  have "Suc i mod length a < length a"
    using assms(2) by (rule succ_mod_less)
  with assms have "a ! i \<in> set a" "a ! (Suc i mod length a) \<in> set a"
    "b ! i \<in> set b" "b ! (Suc i mod length a) \<in> set b"
    by simp_all
  with assms show ?thesis
    by (auto simp: quadwise_cyclic_nth pairwise_cyclic_nth upair_def)
qed

lemma quads_distinct:
  fixes a b :: "nat list"
  assumes "length a = length b" and "3 \<le> length a" and "distinct (a @ b)"
  shows "distinct (map set (quadwise_cyclic a b))"
proof -
  from assms(3) have da: "distinct a" and disj: "set a \<inter> set b = {}"
    by simp_all
  have pairs: "distinct (map upair (pairwise_cyclic a))"
    using da assms(2) by (rule ring_pairs_distinct)
  have "set (quadwise_cyclic a b ! i) \<noteq> set (quadwise_cyclic a b ! j)"
    if ij: "i < length a" "j < length a" "i \<noteq> j" for i j
  proof
    assume "set (quadwise_cyclic a b ! i) = set (quadwise_cyclic a b ! j)"
    then have "upair (pairwise_cyclic a ! i) = upair (pairwise_cyclic a ! j)"
      using quad_step_set [OF assms(1) ij(1) disj] quad_step_set [OF assms(1) ij(2) disj]
      by simp
    then have "map upair (pairwise_cyclic a) ! i = map upair (pairwise_cyclic a) ! j"
      using ij by (simp add: length_pairwise_cyclic)
    moreover have "i < length (map upair (pairwise_cyclic a))"
      "j < length (map upair (pairwise_cyclic a))"
      using ij by (simp_all add: length_pairwise_cyclic)
    ultimately have "i = j"
      using nth_eq_iff_index_eq [OF pairs] by blast
    with ij show False
      by simp
  qed
  then show ?thesis
    by (simp add: distinct_conv_nth length_quadwise_cyclic [OF assms(1)])
qed

lemma disjoint_neq: "x \<in> A \<Longrightarrow> y \<in> B \<Longrightarrow> A \<inter> B = {} \<Longrightarrow> x \<noteq> y"
  by blast

lemma quad_wellformed:
  fixes a b :: "nat list"
  assumes "length a = length b" and "2 \<le> length a" and "distinct (a @ b)"
    and "\<forall>v\<in>set (a @ b). valid_vert bm v" and "q \<in> set (quadwise_cyclic a b)"
  shows "length q = 4 \<and> distinct q \<and> (\<forall>v\<in>set q. valid_vert bm v)"
proof -
  from assms(1,5) obtain i where i: "i < length a" and q: "q = quadwise_cyclic a b ! i"
    by (auto simp: in_set_conv_nth length_quadwise_cyclic)
  define i' where "i' = Suc i mod length a"
  have i': "i' < length a" "i' \<noteq> i"
    unfolding i'_def using i assms(2) by (simp_all add: succ_mod_less succ_mod_neq)
  have q4: "q = [a ! i', a ! i, b ! i, b ! i']"
    unfolding i'_def using q assms(1) i by (simp add: quadwise_cyclic_nth)
  from assms(3) have da: "distinct a" and db: "distinct b" and disj: "set a \<inter> set b = {}"
    by simp_all
  from i i' assms(1) have ib: "i < length b" "i' < length b"
    by simp_all
  have ma: "a ! i \<in> set a" "a ! i' \<in> set a"
    by (rule nth_mem [OF i], rule nth_mem [OF i'(1)])
  have mb: "b ! i \<in> set b" "b ! i' \<in> set b"
    by (rule nth_mem [OF ib(1)], rule nth_mem [OF ib(2)])
  have "a ! i' \<noteq> a ! i"
    using nth_eq_iff_index_eq [OF da i'(1) i] i'(2) by simp
  moreover have "b ! i \<noteq> b ! i'"
    using nth_eq_iff_index_eq [OF db ib] i'(2) by simp
  moreover have "a ! i' \<noteq> b ! i" "a ! i' \<noteq> b ! i'" "a ! i \<noteq> b ! i" "a ! i \<noteq> b ! i'"
    by (rule disjoint_neq [OF _ _ disj], rule ma, rule mb)+
  ultimately have "distinct q"
    by (simp add: q4)
  moreover have "valid_vert bm (a ! i')" "valid_vert bm (a ! i)"
    "valid_vert bm (b ! i)" "valid_vert bm (b ! i')"
    using ma mb assms(4) by simp_all
  ultimately show ?thesis
    by (simp add: q4)
qed
text \<open>
  Claim C4, as stated, fails for rings of length two: the second quad runs through the
  same four vertices as the first, and the kernel refuses a face that exists.
\<close>

theorem bridge_verts_short_ring_counterexample:
  "length [0::nat, 1] = length [2::nat, 3]
   \<and> bridge_verts four_verts [0, 1] [2, 3] = Inl ValueError"
  by (simp add: bridge_verts_def quadwise_cyclic_def faces_new_def face_exists_def
      face_match_def edge_ensure_def joins_def valid_vert_def four_verts_def)

text \<open>
  Claim C4, amended. For two rings of equal length \<open>N \<ge> 3\<close> whose \<open>2 N\<close> vertices are
  pairwise distinct vertices of the mesh, and with no face yet on any of the \<open>N\<close> quads,
  \<open>bridge_verts\<close> produces exactly \<open>N\<close> new faces, each with exactly four edges, and
  returns exactly \<open>N\<close> rung edges; the \<open>i\<close>-th rung edge is the second edge (index 1)
  of the \<open>i\<close>-th face's edge cycle and joins vertex \<open>i\<close> of ring A to vertex \<open>i\<close> of
  ring B.
\<close>

theorem bridge_verts_quads:
  assumes "length v1 = N" and "length v2 = N" and "3 \<le> N"
    and "distinct (v1 @ v2)"
    and "\<forall>v\<in>set (v1 @ v2). valid_vert bm v"
    and "\<forall>q\<in>set (quadwise_cyclic v1 v2). \<not> face_exists bm q"
  shows "\<exists>bm' fs es. bridge_verts bm v1 v2 = Inr (bm', fs, es)
       \<and> length fs = N \<and> length es = N
       \<and> fs = [length (faces bm) ..< length (faces bm) + N]
       \<and> (\<forall>i<N. map fst (faces bm' ! (fs ! i))
                    = [v1 ! (Suc i mod N), v1 ! i, v2 ! i, v2 ! (Suc i mod N)]
                \<and> length (face_edges bm' (fs ! i)) = 4
                \<and> es ! i = face_edges bm' (fs ! i) ! 1
                \<and> es ! i < length (edges bm')
                \<and> joins (edges bm' ! (es ! i)) (v1 ! i) (v2 ! i))"
proof -
  let ?qs = "quadwise_cyclic v1 v2"
  let ?n = "length (faces bm)"
  from assms(1,2) have same: "length v1 = length v2"
    by simp
  have lq: "length ?qs = N"
    using length_quadwise_cyclic [OF same] assms(1) by simp
  have wf: "\<forall>q\<in>set ?qs. 3 \<le> length q \<and> distinct q \<and> (\<forall>v\<in>set q. valid_vert bm v)"
  proof
    fix q assume "q \<in> set ?qs"
    with same assms(1,3,4,5)
    have "length q = 4 \<and> distinct q \<and> (\<forall>v\<in>set q. valid_vert bm v)"
      by (intro quad_wellformed [of v1 v2]) simp_all
    then show "3 \<le> length q \<and> distinct q \<and> (\<forall>v\<in>set q. valid_vert bm v)"
      by simp
  qed
  have dq: "distinct (map set ?qs)"
    using same assms(1,3,4) by (intro quads_distinct) simp_all
  from new_faces_ok [OF wf dq assms(6)]
  obtain bm' fs where run: "new_faces bm ?qs = Inr (bm', [?n ..< ?n + length ?qs])"
    and fb: "faces bm' = faces bm @ fs" and ok: "list_all2 (face_ok bm') fs ?qs"
    by blast
  from ok lq have lfs: "length fs = N"
    by (simp add: list_all2_lengthD)
  let ?fl = "[?n ..< ?n + N]"
  let ?es = "map (\<lambda>f. snd (faces bm' ! f ! 1)) ?fl"
  have face: "faces bm' ! (?fl ! i) = fs ! i" if "i < N" for i
    using that by (simp add: fb nth_append)
  have quad: "?qs ! i = [v1 ! (Suc i mod N), v1 ! i, v2 ! i, v2 ! (Suc i mod N)]"
    if "i < N" for i
    using quadwise_cyclic_nth [OF same, of i] that assms(1) by simp
  have oki: "face_ok bm' (fs ! i) (?qs ! i)" if "i < N" for i
    using list_all2_nthD [OF ok, of i] that lfs by simp
  have cyc: "map fst (fs ! i) = [v1 ! (Suc i mod N), v1 ! i, v2 ! i, v2 ! (Suc i mod N)]"
    if "i < N" for i
    using oki [OF that] quad [OF that] by (simp add: face_ok_def)
  have len4: "length (fs ! i) = 4" if "i < N" for i
  proof -
    have "length (map fst (fs ! i)) = 4"
      by (simp only: cyc [OF that]) simp
    then show ?thesis by simp
  qed
  have rung: "edge_joins bm' (snd (fs ! i ! 1)) (v1 ! i) (v2 ! i)" if "i < N" for i
  proof -
    from oki [OF that] have "\<forall>k<length (?qs ! i).
        edge_joins bm' (snd (fs ! i ! k)) (?qs ! i ! k) (?qs ! i ! (Suc k mod length (?qs ! i)))"
      by (simp add: face_ok_def)
    then have "1 < length (?qs ! i) \<longrightarrow>
        edge_joins bm' (snd (fs ! i ! 1)) (?qs ! i ! 1) (?qs ! i ! (Suc 1 mod length (?qs ! i)))"
      by (rule spec)
    then show ?thesis
      by (simp add: quad [OF that])
  qed
  have "\<forall>f\<in>set ?fl. 1 < length (faces bm' ! f)"
  proof
    fix f assume "f \<in> set ?fl"
    then have bounds: "?n \<le> f" "f < ?n + N"
      by simp_all
    then have i: "f - ?n < N"
      by arith
    from bounds have f: "f = ?fl ! (f - ?n)"
      by simp
    from face [OF i] len4 [OF i] f show "1 < length (faces bm' ! f)"
      by simp
  qed
  then have "second_edges bm' ?fl = Inr ?es"
    by (rule second_edges_result)
  with run lq have res: "bridge_verts bm v1 v2 = Inr (bm', ?fl, ?es)"
    by (simp add: bridge_verts_def)
  have each: "map fst (faces bm' ! (?fl ! i))
                = [v1 ! (Suc i mod N), v1 ! i, v2 ! i, v2 ! (Suc i mod N)]
            \<and> length (face_edges bm' (?fl ! i)) = 4
            \<and> ?es ! i = face_edges bm' (?fl ! i) ! 1
            \<and> ?es ! i < length (edges bm')
            \<and> joins (edges bm' ! (?es ! i)) (v1 ! i) (v2 ! i)"
    if i: "i < N" for i
  proof -
    have e: "?es ! i = snd (fs ! i ! 1)"
      using i face [OF i] by simp
    have "face_edges bm' (?fl ! i) = map snd (fs ! i)"
      by (simp only: face_edges_def face [OF i])
    with len4 [OF i] have "length (face_edges bm' (?fl ! i)) = 4"
      and "face_edges bm' (?fl ! i) ! 1 = snd (fs ! i ! 1)"
      by simp_all
    with e rung [OF i] cyc [OF i] face [OF i] show ?thesis
      by (simp add: edge_joins_def)
  qed
  have "length ?fl = N" "length ?es = N"
    by simp_all
  with res each show ?thesis
    by blast
qed

theorem bridge_verts_quads_witness:
  "length [0::nat, 1, 2] = 3 \<and> length [3::nat, 4, 5] = 3 \<and> distinct ([0::nat, 1, 2] @ [3, 4, 5])
   \<and> (\<exists>bm' fs es. bridge_verts six_verts [0, 1, 2] [3, 4, 5] = Inr (bm', fs, es)
         \<and> fs = [0, 1, 2] \<and> length es = 3
         \<and> es ! 0 = face_edges bm' (fs ! 0) ! 1
         \<and> joins (edges bm' ! (es ! 0)) 0 3)"
proof -
  have l1: "length [0::nat, 1, 2] = 3" and l2: "length [3::nat, 4, 5] = 3" and n: "(3::nat) \<le> 3"
    and dist: "distinct ([0::nat, 1, 2] @ [3, 4, 5])"
    by simp_all
  have valid: "\<forall>v\<in>set ([0::nat, 1, 2] @ [3, 4, 5]). valid_vert six_verts v"
    by (simp add: valid_vert_def six_verts_def)
  have fresh: "\<forall>q\<in>set (quadwise_cyclic [0::nat, 1, 2] [3, 4, 5]). \<not> face_exists six_verts q"
    by (simp add: face_exists_def six_verts_def)
  from bridge_verts_quads [OF l1 l2 n dist valid fresh]
  obtain bm' fs es where run: "bridge_verts six_verts [0, 1, 2] [3, 4, 5] = Inr (bm', fs, es)"
    and les: "length es = 3"
    and fs: "fs = [length (faces six_verts) ..< length (faces six_verts) + 3]"
    and all: "\<forall>i<3. es ! i = face_edges bm' (fs ! i) ! 1
            \<and> joins (edges bm' ! (es ! i)) ([0, 1, 2] ! i) ([3, 4, 5] ! i)"
    by blast
  from all have "0 < (3::nat) \<longrightarrow> es ! 0 = face_edges bm' (fs ! 0) ! 1
            \<and> joins (edges bm' ! (es ! 0)) ([0, 1, 2] ! 0) ([3, 4, 5] ! 0)"
    by (rule spec)
  moreover have "0 < (3::nat)" "[0::nat, 1, 2] ! 0 = 0" "[3::nat, 4, 5] ! 0 = 3"
    by simp_all
  ultimately have first: "es ! 0 = face_edges bm' (fs ! 0) ! 1"
    "joins (edges bm' ! (es ! 0)) 0 3"
    by metis+
  from fs have "fs = [0, 1, 2]"
    by (simp add: six_verts_def upt_rec)
  with run les first l1 l2 dist show ?thesis
    by blast
qed

end
